theory Spec2Isabelle
  imports Complex_Main "HOL-Library.Word"
begin

unbundle bit_operations_syntax

section \<open>Bytes and big-endian integers\<close>

type_synonym uint8 = "8 word"
type_synonym uint16 = "16 word"
type_synonym PID = "16 word"

text \<open>
  Modelled from the spec: \<open>GetUInt16\<close> and \<open>PutUInt16\<close>, declared in a header that is
  not part of the sources. The spec reads the 16-bit fields as big-endian (\<open>u16_be\<close>).
  The code only calls \<open>GetUInt16\<close> behind a check that two bytes remain, so the
  second equation is never reached from the model.
\<close>

fun GetUInt16 :: "uint8 list \<Rightarrow> uint16" where
  "GetUInt16 (a # b # _) = push_bit 8 (ucast a) OR ucast b"
| "GetUInt16 _ = 0"

definition PutUInt16 :: "uint16 \<Rightarrow> uint8 list" where
  "PutUInt16 w = [ucast (drop_bit 8 w), ucast w]"

text \<open>
  Modelled from the spec: the table id of a PMT is 0x02. \<open>PID_NULL\<close> is the null PID
  of MPEG-2; only the object that an early \<open>return\<close> of \<open>deserialize\<close> leaves holds
  it. Both are declared in a header that is not part of the sources.
\<close>

definition TID_PMT :: uint8 where
  "TID_PMT = 0x02"

definition PID_NULL :: PID where
  "PID_NULL = 0x1FFF"

section \<open>Descriptors and descriptor lists\<close>

text \<open>
  Modelled from the spec: class \<open>Descriptor\<close> is not in the sources. The spec: a
  descriptor is a tag, a length and a payload. The model keeps the tag and the payload,
  the length byte being the length of the payload; its binary content is the tag, the
  length byte and the payload.
\<close>

record Descriptor =
  desc_tag :: uint8
  desc_payload :: "uint8 list"

definition desc_size :: "Descriptor \<Rightarrow> nat" where
  "desc_size d = length (desc_payload d) + 2"

definition desc_content :: "Descriptor \<Rightarrow> uint8 list" where
  "desc_content d = desc_tag d # of_nat (length (desc_payload d)) # desc_payload d"

text \<open>
  Modelled from the spec: \<open>DescriptorList::add (data, size)\<close>, whose body is not in the
  sources. The spec: it parses consecutive TLVs and discards malformed trailing bytes;
  insertion order is preserved. The first argument is the \<open>size\<close> bytes at \<open>data\<close>,
  the second the list the descriptors are appended to.
\<close>

function DescriptorList_add :: "uint8 list \<Rightarrow> Descriptor list \<Rightarrow> Descriptor list" where
  "DescriptorList_add data dl =
     (if 2 \<le> length data \<and> unat (data ! 1) + 2 \<le> length data
      then DescriptorList_add (drop (unat (data ! 1) + 2) data)
             (dl @ [\<lparr>desc_tag = data ! 0,
                     desc_payload = take (unat (data ! 1)) (drop 2 data)\<rparr>])
      else dl)"
  by pat_completeness auto
termination
  by (relation "measure (\<lambda>(data, dl). length data)") auto

declare DescriptorList_add.simps [simp del]

section \<open>Sections and binary tables\<close>

text \<open>
  Modelled from the spec: classes \<open>Section\<close> and \<open>BinaryTable\<close> are not in the sources.
  A long section is its header fields and its payload; the CRC and the byte layout of the
  header are below this model, the width of a header field is not. The version number
  is the 5-bit field of a long section header (ISO/IEC 13818-1, 2.4.4.8, which
  \<open>deserialize\<close> cites): a section holds a 5-bit version, the constructor keeps the low 5
  bits of the 8-bit value it is given, and \<open>Section_version\<close> reads the field back as an
  8-bit value. A table is a sequence of sections with the table id they share; it is valid
  once all its sections are present.
\<close>

record Section =
  sect_table_id :: uint8
  is_private_section :: bool
  tableIdExtension :: uint16
  sect_version :: "5 word"
  isCurrent :: bool
  section_number :: uint8
  last_section_number :: uint8
  sect_payload :: "uint8 list"

definition Section_new ::
  "uint8 \<Rightarrow> bool \<Rightarrow> uint16 \<Rightarrow> uint8 \<Rightarrow> bool \<Rightarrow> uint8 \<Rightarrow> uint8 \<Rightarrow> uint8 list \<Rightarrow> Section" where
  "Section_new tid is_private tid_ext version' is_current' section_number'
       last_section_number' payload =
     \<lparr>sect_table_id = tid, is_private_section = is_private, tableIdExtension = tid_ext,
      sect_version = ucast version', isCurrent = is_current',
      section_number = section_number', last_section_number = last_section_number',
      sect_payload = payload\<rparr>"

definition Section_version :: "Section \<Rightarrow> uint8" where
  "Section_version s = ucast (sect_version s)"

record BinaryTable =
  isValid :: bool
  tableId :: uint8
  sections :: "Section list"

definition BinaryTable_clear :: BinaryTable where
  "BinaryTable_clear = \<lparr>isValid = False, tableId = 0xFF, sections = []\<rparr>"

definition addSection :: "Section \<Rightarrow> BinaryTable \<Rightarrow> BinaryTable" where
  "addSection s t =
     \<lparr>isValid = (length (sections t) = unat (last_section_number s)),
      tableId = sect_table_id s,
      sections = sections t @ [s]\<rparr>"

section \<open>The Program Map Table\<close>

record Stream =
  stream_type :: uint8
  stream_descs :: "Descriptor list"

text \<open>
  \<open>StreamMap\<close> is a \<open>std::map <PID, Stream>\<close>: the model is the list of its entries
  in iteration order, that is, with strictly ascending PIDs.
\<close>

type_synonym StreamMap = "(PID \<times> Stream) list"

record PMT =
  is_valid :: bool
  version :: uint8
  is_current :: bool
  service_id :: uint16
  pcr_pid :: PID
  descs :: "Descriptor list"
  streams :: StreamMap


text \<open>
  The default-constructed stream that \<open>streams[pid]\<close> inserts for a new key. Its
  constructor is not in the sources: the descriptor list is empty, and the stream type
  is overwritten at once by the only caller of \<open>streams[pid]\<close>.
\<close>

definition Stream_default :: Stream where
  "Stream_default = \<lparr>stream_type = 0, stream_descs = []\<rparr>"

fun StreamMap_at :: "StreamMap \<Rightarrow> PID \<Rightarrow> Stream" where
  "StreamMap_at [] pid = Stream_default"
| "StreamMap_at ((k, v) # m) pid = (if k = pid then v else StreamMap_at m pid)"

fun StreamMap_put :: "PID \<Rightarrow> Stream \<Rightarrow> StreamMap \<Rightarrow> StreamMap" where
  "StreamMap_put pid s [] = [(pid, s)]"
| "StreamMap_put pid s ((k, v) # m) =
     (if pid < k then (pid, s) # (k, v) # m
      else if pid = k then (pid, s) # m
      else (k, v) # StreamMap_put pid s m)"

text \<open>The constructor from the version, the current flag, the service id and the PCR PID.\<close>

definition PMT_new :: "uint8 \<Rightarrow> bool \<Rightarrow> uint16 \<Rightarrow> PID \<Rightarrow> PMT" where
  "PMT_new version' is_current' service_id' pcr_pid' =
     \<lparr>is_valid = True, version = version', is_current = is_current',
      service_id = service_id', pcr_pid = pcr_pid', descs = [], streams = []\<rparr>"

subsection \<open>Deserialization\<close>

text \<open>
  The loop over the elementary streams of one section payload. \<open>data\<close> is what is left
  of the payload, so \<open>remain\<close> of the source is \<open>length data\<close>.
\<close>

function deserialize_streams :: "uint8 list \<Rightarrow> StreamMap \<Rightarrow> StreamMap" where
  "deserialize_streams data m =
     (if 5 \<le> length data then
        let pid = GetUInt16 (drop 1 data) AND 0x1FFF;
            str = (StreamMap_at m pid)\<lparr>stream_type := data ! 0\<rparr>;
            info_length = min (unat (GetUInt16 (drop 3 data) AND 0x0FFF)) (length data - 5);
            data' = drop 5 data;
            str' = str\<lparr>stream_descs := DescriptorList_add (take info_length data') (stream_descs str)\<rparr>
        in deserialize_streams (drop info_length data') (StreamMap_put pid str' m)
      else m)"
  by pat_completeness auto
termination
  by (relation "measure (\<lambda>(data, m). length data)") auto

declare deserialize_streams.simps [simp del]

text \<open>
  One iteration of the loop over the sections: \<open>Inl\<close> is the object as an early
  \<open>return\<close> leaves it, \<open>Inr\<close> the object after the whole section.
\<close>

definition deserialize_section :: "Section \<Rightarrow> PMT \<Rightarrow> PMT + PMT" where
  "deserialize_section sect p =
     (let p1 = p\<lparr>version := Section_version sect, is_current := isCurrent sect,
                  service_id := tableIdExtension sect\<rparr>;
          data = sect_payload sect
      in if length data < 2 then Inl p1
         else
           let p2 = p1\<lparr>pcr_pid := GetUInt16 data AND 0x1FFF\<rparr>;
               data2 = drop 2 data
           in if length data2 < 2 then Inl p2
              else
                let info_length = min (unat (GetUInt16 data2 AND 0x0FFF)) (length data2 - 2);
                    data3 = drop 2 data2;
                    p3 = p2\<lparr>descs := DescriptorList_add (take info_length data3) (descs p2)\<rparr>
                in Inr (p3\<lparr>streams :=
                          deserialize_streams (drop info_length data3) (streams p3)\<rparr>))"

fun deserialize_sections :: "Section list \<Rightarrow> PMT \<Rightarrow> PMT" where
  "deserialize_sections [] p = p\<lparr>is_valid := True\<rparr>"
| "deserialize_sections (sect # rest) p =
     (case deserialize_section sect p of
        Inl p' \<Rightarrow> p'
      | Inr p' \<Rightarrow> deserialize_sections rest p')"

text \<open>
  \<open>deserialize\<close> is a method: the first argument is the object it is called on, of
  which it keeps \<open>version\<close> and \<open>is_current\<close> when it returns before the first section.
\<close>

definition deserialize :: "PMT \<Rightarrow> BinaryTable \<Rightarrow> PMT" where
  "deserialize this table =
     (let p = this\<lparr>is_valid := False, service_id := 0, pcr_pid := PID_NULL,
                     descs := [], streams := []\<rparr>
      in if \<not> isValid table \<or> tableId table \<noteq> TID_PMT then p
         else deserialize_sections (sections table) p)"

section \<open>Deserialization: validity of the result\<close>

lemma deserialize_section_Inl:
  "deserialize_section sect p = Inl p' \<Longrightarrow>
     length (sect_payload sect) < 4 \<and> is_valid p' = is_valid p"
  by (auto simp: deserialize_section_def Let_def split: if_splits)

lemma deserialize_section_Inr:
  "deserialize_section sect p = Inr p' \<Longrightarrow>
     4 \<le> length (sect_payload sect) \<and> is_valid p' = is_valid p"
  by (auto simp: deserialize_section_def Let_def split: if_splits)

lemma deserialize_sections_valid:
  "\<not> is_valid p \<Longrightarrow>
     is_valid (deserialize_sections ss p) = (\<forall>s \<in> set ss. 4 \<le> length (sect_payload s))"
proof (induction ss arbitrary: p)
  case Nil
  then show ?case by simp
next
  case (Cons s ss)
  show ?case
  proof (cases "deserialize_section s p")
    case (Inl p')
    with deserialize_section_Inl [OF Inl] Cons.prems show ?thesis by auto
  next
    case (Inr p')
    with deserialize_section_Inr [OF Inr] Cons.prems Cons.IH [of p'] show ?thesis by auto
  qed
qed

text \<open>
  C7. \<open>deserialize\<close> is a total function of the table (no branch of it raises), and its
  result is invalid exactly when the table is invalid, the table id is not \<open>TID_PMT\<close>, or
  some section payload has fewer than the 4 initial bytes; otherwise it is valid.
\<close>

theorem deserialize_valid_iff:
  "is_valid (deserialize this table) =
     (\<not> (\<not> isValid table \<or> tableId table \<noteq> TID_PMT \<or>
          (\<exists>s \<in> set (sections table). length (sect_payload s) < 4)))"
  by (auto simp: deserialize_def Let_def deserialize_sections_valid not_less)

theorem deserialize_valid_iff_witness:
  "is_valid (deserialize (PMT_new 0 True 0 0)
      \<lparr>isValid = True, tableId = 0x02, sections =
         [\<lparr>sect_table_id = 0x02, is_private_section = False, tableIdExtension = 1,
           sect_version = 0, isCurrent = True, section_number = 0, last_section_number = 0,
           sect_payload = [0xE1, 0x00, 0xF0, 0x00]\<rparr>]\<rparr>)
   \<and> \<not> is_valid (deserialize (PMT_new 0 True 0 0)
      \<lparr>isValid = True, tableId = 0x02, sections =
         [\<lparr>sect_table_id = 0x02, is_private_section = False, tableIdExtension = 1,
           sect_version = 0, isCurrent = True, section_number = 0, last_section_number = 0,
           sect_payload = [0xE1, 0x00, 0xF0]\<rparr>]\<rparr>)"
  by (simp add: deserialize_valid_iff TID_PMT_def)


section \<open>Semantic predicates on a stream\<close>

text \<open>
  Modelled from the spec: the descriptor tags, declared in a header that is not part of
  the sources. The values are those of ETSI EN 300 468, as the spec says; it lists them
  but for DTS.
\<close>

definition DID_TELETEXT :: uint8 where "DID_TELETEXT = 0x56"
definition DID_SUBTITLING :: uint8 where "DID_SUBTITLING = 0x59"
definition DID_AC3 :: uint8 where "DID_AC3 = 0x6A"
definition DID_ENHANCED_AC3 :: uint8 where "DID_ENHANCED_AC3 = 0x7A"
definition DID_DTS :: uint8 where "DID_DTS = 0x7B"
definition DID_AAC :: uint8 where "DID_AAC = 0x7C"

text \<open>
  Modelled from the spec: \<open>DescriptorList::search (tag, start_index)\<close>, whose body is
  not in the sources. The spec: lookup is by tag with an optional starting index. The
  callers compare its result with \<open>count()\<close>, so it is the index of the first descriptor
  with that tag at or after the starting index, and no index of the list when there is
  none.
\<close>

function DescriptorList_search :: "Descriptor list \<Rightarrow> uint8 \<Rightarrow> nat \<Rightarrow> nat" where
  "DescriptorList_search dl t index =
     (if index < length dl \<and> desc_tag (dl ! index) \<noteq> t
      then DescriptorList_search dl t (Suc index) else index)"
  by pat_completeness auto
termination
  by (relation "measure (\<lambda>(dl, t, index). length dl - index)") auto

declare DescriptorList_search.simps [simp del]

lemma search_ge: "index \<le> DescriptorList_search dl t index"
  by (induction dl t index rule: DescriptorList_search.induct)
     (subst DescriptorList_search.simps, auto)

lemma search_found:
  "DescriptorList_search dl t index < length dl \<Longrightarrow>
     desc_tag (dl ! DescriptorList_search dl t index) = t"
proof (induction dl t index rule: DescriptorList_search.induct)
  case (1 dl t index)
  show ?case
  proof (cases "index < length dl \<and> desc_tag (dl ! index) \<noteq> t")
    case True
    then have eq: "DescriptorList_search dl t index = DescriptorList_search dl t (Suc index)"
      by (subst DescriptorList_search.simps) simp
    with "1.IH" [OF True] "1.prems" show ?thesis by simp
  next
    case False
    then have "DescriptorList_search dl t index = index"
      by (subst DescriptorList_search.simps) auto
    with False "1.prems" show ?thesis by auto
  qed
qed

lemma search_skipped:
  "index \<le> j \<Longrightarrow> j < DescriptorList_search dl t index \<Longrightarrow> j < length dl \<Longrightarrow> desc_tag (dl ! j) \<noteq> t"
proof (induction dl t index rule: DescriptorList_search.induct)
  case (1 dl t index)
  show ?case
  proof (cases "index < length dl \<and> desc_tag (dl ! index) \<noteq> t")
    case True
    then have eq: "DescriptorList_search dl t index = DescriptorList_search dl t (Suc index)"
      by (subst DescriptorList_search.simps) simp
    show ?thesis
    proof (cases "j = index")
      case True
      with \<open>index < length dl \<and> desc_tag (dl ! index) \<noteq> t\<close> show ?thesis by simp
    next
      case False
      with "1.prems" have "Suc index \<le> j" by simp
      with "1.IH" [OF True] "1.prems" eq show ?thesis by simp
    qed
  next
    case False
    then have "DescriptorList_search dl t index = index"
      by (subst DescriptorList_search.simps) auto
    with "1.prems" show ?thesis by simp
  qed
qed

lemma search_less_iff:
  "(DescriptorList_search dl t index < length dl) =
     (\<exists>j. index \<le> j \<and> j < length dl \<and> desc_tag (dl ! j) = t)"
proof
  assume a: "DescriptorList_search dl t index < length dl"
  show "\<exists>j. index \<le> j \<and> j < length dl \<and> desc_tag (dl ! j) = t"
    using a search_ge [of index dl t] search_found [OF a] by blast
next
  assume "\<exists>j. index \<le> j \<and> j < length dl \<and> desc_tag (dl ! j) = t"
  then obtain j where j: "index \<le> j" "j < length dl" "desc_tag (dl ! j) = t" by blast
  show "DescriptorList_search dl t index < length dl"
  proof (rule ccontr)
    assume "\<not> DescriptorList_search dl t index < length dl"
    then have "j < DescriptorList_search dl t index" using j by simp
    from search_skipped [OF j(1) this j(2)] j(3) show False by simp
  qed
qed

lemma search_0_iff:
  "(DescriptorList_search dl t 0 < length dl) = (\<exists>d \<in> set dl. desc_tag d = t)"
  unfolding search_less_iff by (metis in_set_conv_nth le0)

text \<open>
  \<open>IsAudioST\<close> is declared in a header that is not part of the sources, and the spec
  does not list the audio stream types: the predicate on stream types is a parameter.
\<close>

definition isAudio :: "(uint8 \<Rightarrow> bool) \<Rightarrow> Stream \<Rightarrow> bool" where
  "isAudio IsAudioST s =
     (IsAudioST (stream_type s) \<or>
      DescriptorList_search (stream_descs s) DID_DTS 0 < length (stream_descs s) \<or>
      DescriptorList_search (stream_descs s) DID_AC3 0 < length (stream_descs s) \<or>
      DescriptorList_search (stream_descs s) DID_ENHANCED_AC3 0 < length (stream_descs s) \<or>
      DescriptorList_search (stream_descs s) DID_AAC 0 < length (stream_descs s))"

text \<open>
  C9. \<open>isAudio\<close> is true exactly when the stream type is an audio stream type or the
  descriptor list has a descriptor with tag DTS, AC-3, Enhanced-AC-3 or AAC; a stream of
  type 0x06 with an empty AC-3 descriptor (tag 0x6A) is audio.
\<close>

theorem isAudio_iff:
  "isAudio IsAudioST s =
     (IsAudioST (stream_type s) \<or>
      (\<exists>d \<in> set (stream_descs s).
         desc_tag d = DID_DTS \<or> desc_tag d = DID_AC3 \<or>
         desc_tag d = DID_ENHANCED_AC3 \<or> desc_tag d = DID_AAC))
   \<and> isAudio IsAudioST \<lparr>stream_type = 0x06,
        stream_descs = [\<lparr>desc_tag = 0x6A, desc_payload = []\<rparr>]\<rparr>"
proof -
  have gen: "isAudio IsAudioST s =
     (IsAudioST (stream_type s) \<or>
      (\<exists>d \<in> set (stream_descs s).
         desc_tag d = DID_DTS \<or> desc_tag d = DID_AC3 \<or>
         desc_tag d = DID_ENHANCED_AC3 \<or> desc_tag d = DID_AAC))" for s
    unfolding isAudio_def search_0_iff by blast
  show ?thesis
    unfolding gen [of "\<lparr>stream_type = 0x06, stream_descs = [\<lparr>desc_tag = 0x6A, desc_payload = []\<rparr>]\<rparr>"]
    using gen [of s] by (simp add: DID_AC3_def)
qed

text \<open>The loop over the language entries of one teletext descriptor payload.\<close>

function teletext_has_subtitles :: "uint8 list \<Rightarrow> bool" where
  "teletext_has_subtitles data =
     (if 5 \<le> length data then
        let ttype = drop_bit 3 (data ! 3)
        in if ttype = 0x02 \<or> ttype = 0x05 then True
           else teletext_has_subtitles (drop 5 data)
      else False)"
  by pat_completeness auto
termination
  by (relation "measure length") auto

declare teletext_has_subtitles.simps [simp del]

text \<open>The loop over the teletext descriptors of the list, from index \<open>start\<close>.\<close>

function isSubtitles_teletext :: "Descriptor list \<Rightarrow> nat \<Rightarrow> bool" where
  "isSubtitles_teletext dl start =
     (let index = DescriptorList_search dl DID_TELETEXT start
      in if index < length dl then
           if teletext_has_subtitles (desc_payload (dl ! index)) then True
           else isSubtitles_teletext dl (Suc index)
         else False)"
  by pat_completeness auto
termination
proof (relation "measure (\<lambda>(dl, start). length dl - start)")
  show "wf (measure (\<lambda>(dl, start). length dl - start))" by simp
next
  fix dl :: "Descriptor list" and start index :: nat
  assume "index = DescriptorList_search dl DID_TELETEXT start" "index < length dl"
  then show "((dl, Suc index), dl, start) \<in> measure (\<lambda>(dl, start). length dl - start)"
    using search_ge [of start dl DID_TELETEXT] by simp
qed

declare isSubtitles_teletext.simps [simp del]

definition isSubtitles :: "Stream \<Rightarrow> bool" where
  "isSubtitles s =
     (if DescriptorList_search (stream_descs s) DID_SUBTITLING 0 < length (stream_descs s)
      then True
      else isSubtitles_teletext (stream_descs s) 0)"

text \<open>
  Entry \<open>k\<close> of a teletext payload is complete (5 bytes) and its type, bits 7..3 of its
  fourth byte, is 2 or 5.
\<close>

definition subtitle_entry :: "uint8 list \<Rightarrow> nat \<Rightarrow> bool" where
  "subtitle_entry data k =
     (5 * k + 5 \<le> length data \<and>
      (drop_bit 3 (data ! (5 * k + 3)) = 0x02 \<or> drop_bit 3 (data ! (5 * k + 3)) = 0x05))"

lemma teletext_has_subtitles_iff:
  "teletext_has_subtitles data = (\<exists>k. subtitle_entry data k)"
proof (induction data rule: teletext_has_subtitles.induct)
  case (1 data)
  show ?case
  proof (cases "5 \<le> length data")
    case False
    then show ?thesis
      by (subst teletext_has_subtitles.simps) (auto simp: subtitle_entry_def)
  next
    case len: True
    show ?thesis
    proof (cases "drop_bit 3 (data ! 3) = 0x02 \<or> drop_bit 3 (data ! 3) = 0x05")
      case True
      with len have "subtitle_entry data 0" by (simp add: subtitle_entry_def)
      with True len show ?thesis
        by (subst teletext_has_subtitles.simps) (auto simp: Let_def)
    next
      case False
      have shift: "subtitle_entry (drop 5 data) k = subtitle_entry data (Suc k)" for k
        using len by (auto simp: subtitle_entry_def add.commute)
      have "(\<exists>k. subtitle_entry data k) = (\<exists>k. subtitle_entry data (Suc k))"
      proof
        assume "\<exists>k. subtitle_entry data k"
        then obtain k where k: "subtitle_entry data k" by blast
        have "k \<noteq> 0"
        proof
          assume "k = 0"
          with k False show False by (simp add: subtitle_entry_def)
        qed
        then obtain k' where "k = Suc k'" by (cases k) auto
        with k show "\<exists>k. subtitle_entry data (Suc k)" by blast
      qed blast
      with "1.IH" [OF len refl] False len shift show ?thesis
        by (subst teletext_has_subtitles.simps) (simp add: Let_def)
    qed
  qed
qed

lemma isSubtitles_teletext_iff:
  "isSubtitles_teletext dl start =
     (\<exists>j. start \<le> j \<and> j < length dl \<and> desc_tag (dl ! j) = DID_TELETEXT \<and>
          teletext_has_subtitles (desc_payload (dl ! j)))"
proof (induction dl start rule: isSubtitles_teletext.induct)
  case (1 dl start)
  let ?i = "DescriptorList_search dl DID_TELETEXT start"
  show ?case
  proof (cases "?i < length dl")
    case False
    then have "isSubtitles_teletext dl start = False"
      by (subst isSubtitles_teletext.simps) (simp add: Let_def)
    moreover from False have "\<not> (\<exists>j. start \<le> j \<and> j < length dl \<and> desc_tag (dl ! j) = DID_TELETEXT)"
      unfolding search_less_iff by simp
    ultimately show ?thesis by blast
  next
    case lt: True
    have tagi: "desc_tag (dl ! ?i) = DID_TELETEXT" by (rule search_found [OF lt])
    have ge: "start \<le> ?i" by (rule search_ge)
    show ?thesis
    proof (cases "teletext_has_subtitles (desc_payload (dl ! ?i))")
      case True
      then have "isSubtitles_teletext dl start"
        using lt by (subst isSubtitles_teletext.simps) (simp add: Let_def)
      with True lt tagi ge show ?thesis by blast
    next
      case False
      then have eq: "isSubtitles_teletext dl start = isSubtitles_teletext dl (Suc ?i)"
        using lt by (subst isSubtitles_teletext.simps) (simp add: Let_def)
      have ih: "isSubtitles_teletext dl (Suc ?i) =
          (\<exists>j. Suc ?i \<le> j \<and> j < length dl \<and> desc_tag (dl ! j) = DID_TELETEXT \<and>
               teletext_has_subtitles (desc_payload (dl ! j)))"
        using "1.IH" [OF refl lt] False by simp
      have "(\<exists>j. start \<le> j \<and> j < length dl \<and> desc_tag (dl ! j) = DID_TELETEXT \<and>
               teletext_has_subtitles (desc_payload (dl ! j))) =
            (\<exists>j. Suc ?i \<le> j \<and> j < length dl \<and> desc_tag (dl ! j) = DID_TELETEXT \<and>
               teletext_has_subtitles (desc_payload (dl ! j)))" (is "?L = ?R")
      proof
        assume ?L
        then obtain j where j: "start \<le> j" "j < length dl" "desc_tag (dl ! j) = DID_TELETEXT"
          "teletext_has_subtitles (desc_payload (dl ! j))" by blast
        have "\<not> j < ?i" using search_skipped [OF j(1) _ j(2)] j(3) by blast
        moreover have "j \<noteq> ?i" using j(4) False by auto
        ultimately have "Suc ?i \<le> j" by simp
        with j show ?R by blast
      next
        assume ?R
        then show ?L using ge by (meson Suc_leD le_trans)
      qed
      with eq ih show ?thesis by simp
    qed
  qed
qed

text \<open>
  C8. \<open>isSubtitles\<close> is true exactly when the descriptor list has a subtitling
  descriptor, or a teletext descriptor with a complete 5-byte language entry whose type
  byte shifted right by 3 is 2 or 5; a sole teletext entry with type byte 0x18 gives
  false, one with 0x10 gives true.
\<close>

theorem isSubtitles_iff:
  "isSubtitles s =
     ((\<exists>d \<in> set (stream_descs s). desc_tag d = DID_SUBTITLING) \<or>
      (\<exists>d \<in> set (stream_descs s). desc_tag d = DID_TELETEXT \<and>
         (\<exists>k. 5 * k + 5 \<le> length (desc_payload d) \<and>
              (drop_bit 3 (desc_payload d ! (5 * k + 3)) = 0x02 \<or>
               drop_bit 3 (desc_payload d ! (5 * k + 3)) = 0x05))))
   \<and> \<not> isSubtitles \<lparr>stream_type = t,
          stream_descs = [\<lparr>desc_tag = DID_TELETEXT, desc_payload = [a, b, c, 0x18, e]\<rparr>]\<rparr>
   \<and> isSubtitles \<lparr>stream_type = t,
        stream_descs = [\<lparr>desc_tag = DID_TELETEXT, desc_payload = [a, b, c, 0x10, e]\<rparr>]\<rparr>"
proof -
  have gen: "isSubtitles s =
     ((\<exists>d \<in> set (stream_descs s). desc_tag d = DID_SUBTITLING) \<or>
      (\<exists>d \<in> set (stream_descs s). desc_tag d = DID_TELETEXT \<and> (\<exists>k. subtitle_entry (desc_payload d) k)))" for s
  proof -
    have "isSubtitles_teletext (stream_descs s) 0 =
        (\<exists>d \<in> set (stream_descs s). desc_tag d = DID_TELETEXT \<and> (\<exists>k. subtitle_entry (desc_payload d) k))"
      unfolding isSubtitles_teletext_iff teletext_has_subtitles_iff
      by (metis in_set_conv_nth le0)
    then show ?thesis
      unfolding isSubtitles_def search_0_iff by simp
  qed
  have one: "(\<exists>k. subtitle_entry [a, b, c, x, e] k) = (drop_bit 3 x = 0x02 \<or> drop_bit 3 x = 0x05)" for x
  proof
    assume "\<exists>k. subtitle_entry [a, b, c, x, e] k"
    then obtain k where k: "subtitle_entry [a, b, c, x, e] k" by blast
    then have "k = 0" by (simp add: subtitle_entry_def)
    with k show "drop_bit 3 x = 0x02 \<or> drop_bit 3 x = 0x05" by (simp add: subtitle_entry_def)
  next
    assume "drop_bit 3 x = 0x02 \<or> drop_bit 3 x = 0x05"
    then have "subtitle_entry [a, b, c, x, e] 0" by (simp add: subtitle_entry_def)
    then show "\<exists>k. subtitle_entry [a, b, c, x, e] k" by blast
  qed
  have d: "drop_bit 3 (0x18 :: uint8) = 3" "drop_bit 3 (0x10 :: uint8) = 2" by simp_all
  have ne: "DID_TELETEXT \<noteq> DID_SUBTITLING" by (simp add: DID_TELETEXT_def DID_SUBTITLING_def)
  have "\<not> isSubtitles \<lparr>stream_type = t,
          stream_descs = [\<lparr>desc_tag = DID_TELETEXT, desc_payload = [a, b, c, 0x18, e]\<rparr>]\<rparr>"
    unfolding gen by (simp add: one d ne)
  moreover have "isSubtitles \<lparr>stream_type = t,
        stream_descs = [\<lparr>desc_tag = DID_TELETEXT, desc_payload = [a, b, c, 0x10, e]\<rparr>]\<rparr>"
    unfolding gen by (simp add: one d ne)
  moreover note gen [of s, unfolded subtitle_entry_def]
  ultimately show ?thesis by blast
qed


section \<open>Serialization\<close>

text \<open>
  Modelled from the spec: the constant is declared in a header that is not part of the
  sources; the spec gives 1021 bytes. \<open>serialize\<close> below takes the size of its
  payload buffer as a parameter, and the general results hold for every size.
\<close>

definition MAX_PSI_LONG_SECTION_PAYLOAD_SIZE :: nat where
  "MAX_PSI_LONG_SECTION_PAYLOAD_SIZE = 1021"

text \<open>
  Modelled from the spec: \<open>DescriptorList::lengthSerialize (addr, size)\<close>, whose body
  is not in the sources. The spec: it writes a 12-bit length prefix followed by the
  descriptors, in order, and returns the index of the first descriptor that did not fit
  (the count on success). Both arguments are passed by reference: the result is the bytes
  written at \<open>addr\<close>, the new \<open>size\<close> and the returned index. The upper 4 bits of the
  prefix are reserved bits, written as ones like the reserved bits of the PIDs.
\<close>

fun DescriptorList_serialize :: "Descriptor list \<Rightarrow> nat \<Rightarrow> uint8 list \<times> nat \<times> nat" where
  "DescriptorList_serialize [] remain = ([], remain, 0)"
| "DescriptorList_serialize (d # ds) remain =
     (if desc_size d \<le> remain
      then (case DescriptorList_serialize ds (remain - desc_size d) of
              (bs, remain', n) \<Rightarrow> (desc_content d @ bs, remain', Suc n))
      else ([], remain, 0))"

definition lengthSerialize :: "Descriptor list \<Rightarrow> nat \<Rightarrow> uint8 list \<times> nat \<times> nat" where
  "lengthSerialize dl remain =
     (case DescriptorList_serialize dl (remain - 2) of
        (bs, remain', n) \<Rightarrow> (PutUInt16 (of_nat (length bs) OR 0xF000) @ bs, remain', n))"

text \<open>
  The loop over the elementary streams. \<open>out\<close> is \<open>payload[0 .. data - payload)\<close>,
  what has been written so far; \<open>None\<close> is a \<open>return\<close> inside the loop, which leaves the
  table invalid; \<open>Some\<close> is the end of the loop, with the bytes written.
\<close>

fun serialize_streams :: "StreamMap \<Rightarrow> uint8 list \<Rightarrow> nat \<Rightarrow> uint8 list option" where
  "serialize_streams [] out remain = Some out"
| "serialize_streams ((pid, str) # rest) out remain =
     (if 5 \<le> remain then
        if remain < 5 then None
        else
          let out1 = out @ stream_type str # PutUInt16 (pid OR 0xE000);
              remain1 = remain - 3
          in case lengthSerialize (stream_descs str) remain1 of
               (bs, remain2, next_index) \<Rightarrow>
                 if next_index \<noteq> length (stream_descs str) then None
                 else serialize_streams rest (out1 @ bs) remain2
      else Some out)"

definition serialize :: "nat \<Rightarrow> PMT \<Rightarrow> BinaryTable" where
  "serialize max_payload p =
     (let table = BinaryTable_clear
      in if \<not> is_valid p then table
         else
           let out = PutUInt16 (pcr_pid p OR 0xE000);
               remain = max_payload - 2
           in case lengthSerialize (descs p) remain of
                (bs, remain', next_index) \<Rightarrow>
                  (case serialize_streams (streams p) (out @ bs) remain' of
                     None \<Rightarrow> table
                   | Some payload \<Rightarrow>
                       addSection
                         (Section_new TID_PMT False (service_id p) (version p) (is_current p)
                            0 0 payload)
                         table))"

subsection \<open>Sizes and contents\<close>

text \<open>
  The size of the combined payload of a PMT: the PCR PID field and the length prefix
  (4 bytes), the program descriptors, and for each stream 5 bytes and its descriptors.
\<close>

definition descs_size :: "Descriptor list \<Rightarrow> nat" where
  "descs_size dl = sum_list (map desc_size dl)"

definition streams_size :: "StreamMap \<Rightarrow> nat" where
  "streams_size m = sum_list (map (\<lambda>(pid, str). 5 + descs_size (stream_descs str)) m)"

definition PMT_payload_size :: "PMT \<Rightarrow> nat" where
  "PMT_payload_size p = 4 + descs_size (descs p) + streams_size (streams p)"

definition descs_content :: "Descriptor list \<Rightarrow> uint8 list" where
  "descs_content dl = concat (map desc_content dl)"



lemma length_PutUInt16 [simp]: "length (PutUInt16 w) = 2"
  by (simp add: PutUInt16_def)



lemma length_desc_content [simp]: "length (desc_content d) = desc_size d"
  by (simp add: desc_content_def desc_size_def)

lemma length_descs_content [simp]: "length (descs_content dl) = descs_size dl"
  by (induction dl) (simp_all add: descs_content_def descs_size_def)


lemma DescriptorList_serialize_fits:
  "descs_size ds \<le> remain \<Longrightarrow>
     DescriptorList_serialize ds remain = (descs_content ds, remain - descs_size ds, length ds)"
  by (induction ds arbitrary: remain) (auto simp: descs_size_def descs_content_def)

lemma lengthSerialize_fits:
  "descs_size ds + 2 \<le> remain \<Longrightarrow>
     lengthSerialize ds remain =
       (PutUInt16 (of_nat (descs_size ds) OR 0xF000) @ descs_content ds,
        remain - 2 - descs_size ds, length ds)"
  by (simp add: lengthSerialize_def DescriptorList_serialize_fits)







lemma drop_PutUInt16 [simp]: "drop 2 (PutUInt16 w @ rest) = rest"
  by (simp add: PutUInt16_def)








subsection \<open>Payloads that do not fit\<close>

definition big_descriptor :: Descriptor where
  "big_descriptor = \<lparr>desc_tag = 0x05, desc_payload = replicate 255 0\<rparr>"

definition fill_descriptor :: Descriptor where
  "fill_descriptor = \<lparr>desc_tag = 0x05, desc_payload = replicate 239 0\<rparr>"

definition overfull_descs_PMT :: PMT where
  "overfull_descs_PMT = (PMT_new 0 True 1 0x0100)
     \<lparr>descs := [big_descriptor, big_descriptor, big_descriptor, big_descriptor]\<rparr>"

definition overfull_streams_PMT :: PMT where
  "overfull_streams_PMT = (PMT_new 0 True 1 0x0100)
     \<lparr>descs := [big_descriptor, big_descriptor, big_descriptor, fill_descriptor],
      streams := [(0x0100, \<lparr>stream_type = 0x1B, stream_descs = []\<rparr>),
                  (0x0101, \<lparr>stream_type = 0x04, stream_descs = []\<rparr>)]\<rparr>"

lemma desc_size_big [simp]: "desc_size big_descriptor = 257"
  by (simp add: desc_size_def big_descriptor_def)

lemma desc_size_fill [simp]: "desc_size fill_descriptor = 241"
  by (simp add: desc_size_def fill_descriptor_def)


lemma serialize_overfull_descs:
  "serialize MAX_PSI_LONG_SECTION_PAYLOAD_SIZE overfull_descs_PMT =
   serialize MAX_PSI_LONG_SECTION_PAYLOAD_SIZE
     (overfull_descs_PMT\<lparr>descs := [big_descriptor, big_descriptor, big_descriptor]\<rparr>)"
proof -
  have "DescriptorList_serialize [big_descriptor, big_descriptor, big_descriptor, big_descriptor] 1017 =
        DescriptorList_serialize [big_descriptor, big_descriptor, big_descriptor] 1017"
    by simp
  then show ?thesis
    by (simp add: serialize_def lengthSerialize_def overfull_descs_PMT_def PMT_new_def
        MAX_PSI_LONG_SECTION_PAYLOAD_SIZE_def)
qed

lemma serialize_overfull_streams:
  "serialize MAX_PSI_LONG_SECTION_PAYLOAD_SIZE overfull_streams_PMT =
   serialize MAX_PSI_LONG_SECTION_PAYLOAD_SIZE
     (overfull_streams_PMT\<lparr>streams := [(0x0100, \<lparr>stream_type = 0x1B, stream_descs = []\<rparr>)]\<rparr>)"
proof -
  have ds: "lengthSerialize [big_descriptor, big_descriptor, big_descriptor, fill_descriptor] 1019 =
      (PutUInt16 (of_nat 1012 OR 0xF000) @
         descs_content [big_descriptor, big_descriptor, big_descriptor, fill_descriptor], 5, 4)"
    by (subst lengthSerialize_fits) (simp_all add: descs_size_def)
  have ls: "lengthSerialize [] 2 = (PutUInt16 (0 OR 0xF000), 0, 0)"
    by (simp add: lengthSerialize_def)
  show ?thesis
    by (simp add: serialize_def overfull_streams_PMT_def PMT_new_def ds ls
        MAX_PSI_LONG_SECTION_PAYLOAD_SIZE_def)
qed

lemma isValid_serialize_overfull_descs:
  "isValid (serialize MAX_PSI_LONG_SECTION_PAYLOAD_SIZE overfull_descs_PMT)"
proof -
  have "DescriptorList_serialize [big_descriptor, big_descriptor, big_descriptor, big_descriptor] 1017 =
        (desc_content big_descriptor @ desc_content big_descriptor @ desc_content big_descriptor, 246, 3)"
    by simp
  then show ?thesis
    by (simp add: serialize_def lengthSerialize_def overfull_descs_PMT_def PMT_new_def
        MAX_PSI_LONG_SECTION_PAYLOAD_SIZE_def addSection_def Section_new_def
        BinaryTable_clear_def)
qed

lemma isValid_serialize_overfull_streams:
  "isValid (serialize MAX_PSI_LONG_SECTION_PAYLOAD_SIZE overfull_streams_PMT)"
proof -
  have ds: "lengthSerialize [big_descriptor, big_descriptor, big_descriptor, fill_descriptor] 1019 =
      (PutUInt16 (of_nat 1012 OR 0xF000) @
         descs_content [big_descriptor, big_descriptor, big_descriptor, fill_descriptor], 5, 4)"
    by (subst lengthSerialize_fits) (simp_all add: descs_size_def)
  have ls: "lengthSerialize [] 2 = (PutUInt16 (0 OR 0xF000), 0, 0)"
    by (simp add: lengthSerialize_def)
  show ?thesis
    by (simp add: serialize_def overfull_streams_PMT_def PMT_new_def ds ls
        MAX_PSI_LONG_SECTION_PAYLOAD_SIZE_def addSection_def Section_new_def
        BinaryTable_clear_def)
qed

text \<open>
  C2 fails on the code. A valid PMT with four program descriptors of 257 bytes (combined
  payload 1032 bytes) serializes into a valid table, the same as the one of the PMT with
  the first three descriptors only. A valid PMT with 1016 bytes of PCR PID and program
  descriptors and two streams without descriptors (combined payload 1026 bytes)
  serializes into a valid table, the same as the one of the PMT with the first stream
  only.
\<close>

theorem serialize_overflow_valid:
  "is_valid overfull_descs_PMT \<and>
   MAX_PSI_LONG_SECTION_PAYLOAD_SIZE < PMT_payload_size overfull_descs_PMT \<and>
   isValid (serialize MAX_PSI_LONG_SECTION_PAYLOAD_SIZE overfull_descs_PMT) \<and>
   serialize MAX_PSI_LONG_SECTION_PAYLOAD_SIZE overfull_descs_PMT =
     serialize MAX_PSI_LONG_SECTION_PAYLOAD_SIZE
       (overfull_descs_PMT\<lparr>descs := [big_descriptor, big_descriptor, big_descriptor]\<rparr>) \<and>
   is_valid overfull_streams_PMT \<and>
   MAX_PSI_LONG_SECTION_PAYLOAD_SIZE < PMT_payload_size overfull_streams_PMT \<and>
   isValid (serialize MAX_PSI_LONG_SECTION_PAYLOAD_SIZE overfull_streams_PMT) \<and>
   serialize MAX_PSI_LONG_SECTION_PAYLOAD_SIZE overfull_streams_PMT =
     serialize MAX_PSI_LONG_SECTION_PAYLOAD_SIZE
       (overfull_streams_PMT\<lparr>streams := [(0x0100, \<lparr>stream_type = 0x1B, stream_descs = []\<rparr>)]\<rparr>)"
proof -
  have 1: "is_valid overfull_descs_PMT" "is_valid overfull_streams_PMT"
    by (simp_all add: overfull_descs_PMT_def overfull_streams_PMT_def PMT_new_def)
  have 2: "MAX_PSI_LONG_SECTION_PAYLOAD_SIZE < PMT_payload_size overfull_descs_PMT"
    by (simp add: overfull_descs_PMT_def PMT_new_def PMT_payload_size_def descs_size_def
        streams_size_def MAX_PSI_LONG_SECTION_PAYLOAD_SIZE_def)
  have 3: "MAX_PSI_LONG_SECTION_PAYLOAD_SIZE < PMT_payload_size overfull_streams_PMT"
    by (simp add: overfull_streams_PMT_def PMT_new_def PMT_payload_size_def descs_size_def
        streams_size_def MAX_PSI_LONG_SECTION_PAYLOAD_SIZE_def)
  from 1 2 3 isValid_serialize_overfull_descs isValid_serialize_overfull_streams
    serialize_overfull_descs serialize_overfull_streams
  show ?thesis by blast
qed


section \<open>Deserialization: repeated PIDs\<close>

text \<open>
  The stream entries of the elementary stream loop, in the order of the payload: the
  PID, the stream type and the descriptors parsed from the entry's own descriptor bytes.
\<close>

function stream_entries :: "uint8 list \<Rightarrow> (PID \<times> uint8 \<times> Descriptor list) list" where
  "stream_entries data =
     (if 5 \<le> length data then
        let info_length = min (unat (GetUInt16 (drop 3 data) AND 0x0FFF)) (length data - 5)
        in (GetUInt16 (drop 1 data) AND 0x1FFF, data ! 0,
            DescriptorList_add (take info_length (drop 5 data)) [])
           # stream_entries (drop info_length (drop 5 data))
      else [])"
  by pat_completeness auto
termination
  by (relation "measure length") auto

declare stream_entries.simps [simp del]

definition entries_of :: "PID \<Rightarrow> (PID \<times> uint8 \<times> Descriptor list) list \<Rightarrow> (PID \<times> uint8 \<times> Descriptor list) list" where
  "entries_of pid es = filter (\<lambda>e. fst e = pid) es"

text \<open>What the entries of one PID, in order, make of the stream the map had for it.\<close>

fun merge_entries :: "Stream \<Rightarrow> (PID \<times> uint8 \<times> Descriptor list) list \<Rightarrow> Stream" where
  "merge_entries s [] = s"
| "merge_entries s ((pid, t, ds) # es) =
     merge_entries \<lparr>stream_type = t, stream_descs = stream_descs s @ ds\<rparr> es"

lemma DescriptorList_add_append_gen:
  "DescriptorList_add data (dl1 @ dl) = dl1 @ DescriptorList_add data dl"
proof (induction data dl arbitrary: dl1 rule: DescriptorList_add.induct)
  case (1 data dl)
  show ?case
  proof (cases "2 \<le> length data \<and> unat (data ! 1) + 2 \<le> length data")
    case True
    let ?d = "\<lparr>desc_tag = data ! 0, desc_payload = take (unat (data ! 1)) (drop 2 data)\<rparr>"
    let ?rest = "drop (unat (data ! 1) + 2) data"
    have a: "DescriptorList_add data (dl1 @ dl) = DescriptorList_add ?rest (dl1 @ (dl @ [?d]))"
      using True by (subst DescriptorList_add.simps) simp
    have b: "DescriptorList_add data dl = DescriptorList_add ?rest (dl @ [?d])"
      using True by (subst DescriptorList_add.simps) simp
    show ?thesis
      unfolding a b by (rule "1.IH" [OF True])
  next
    case False
    then show ?thesis
      by (subst (1 2) DescriptorList_add.simps) auto
  qed
qed

lemma DescriptorList_add_append:
  "DescriptorList_add data dl = dl @ DescriptorList_add data []"
  using DescriptorList_add_append_gen [of data dl "[]"] by simp

lemma Stream_update_all:
  "(r :: Stream)\<lparr>stream_type := a, stream_descs := b\<rparr> = \<lparr>stream_type = a, stream_descs = b\<rparr>"
  by (cases r) simp

lemma StreamMap_at_put:
  "StreamMap_at (StreamMap_put pid s m) k = (if k = pid then s else StreamMap_at m k)"
  by (induction m) auto

lemma merge_entries_last:
  "es \<noteq> [] \<Longrightarrow>
     merge_entries s es =
       \<lparr>stream_type = fst (snd (last es)),
        stream_descs = stream_descs s @ concat (map (\<lambda>e. snd (snd e)) es)\<rparr>"
proof (induction es arbitrary: s)
  case Nil
  then show ?case by simp
next
  case (Cons e es)
  obtain pid t ds where e: "e = (pid, t, ds)" by (cases e)
  show ?case
  proof (cases "es = []")
    case True
    then show ?thesis by (simp add: e)
  next
    case False
    from Cons.IH [OF False] False show ?thesis by (simp add: e)
  qed
qed

lemma deserialize_streams_at:
  "StreamMap_at (deserialize_streams data m) pid =
     merge_entries (StreamMap_at m pid) (entries_of pid (stream_entries data))"
proof (induction data m rule: deserialize_streams.induct)
  case (1 data m)
  show ?case
  proof (cases "5 \<le> length data")
    case False
    then show ?thesis
      by (subst deserialize_streams.simps, subst stream_entries.simps) (simp add: entries_of_def)
  next
    case True
    let ?p = "GetUInt16 (drop (Suc 0) data) AND 0x1FFF"
    let ?n = "min (unat (GetUInt16 (drop 3 data) AND 0x0FFF)) (length data - 5)"
    let ?ds = "DescriptorList_add (take ?n (drop 5 data)) []"
    let ?str = "\<lparr>stream_type = data ! 0,
        stream_descs = stream_descs (StreamMap_at m ?p) @ ?ds\<rparr>"
    let ?rest = "drop (?n + 5) data"
    have add: "DescriptorList_add (take ?n (drop 5 data)) (stream_descs (StreamMap_at m ?p)) =
        stream_descs (StreamMap_at m ?p) @ ?ds"
      by (rule DescriptorList_add_append)
    have step: "deserialize_streams data m = deserialize_streams ?rest (StreamMap_put ?p ?str m)"
      using True
      by (subst deserialize_streams.simps) (simp add: Let_def add Stream_update_all)
    have ents: "stream_entries data = (?p, data ! 0, ?ds) # stream_entries ?rest"
      using True
      by (subst stream_entries.simps) (simp add: Let_def)
    have ih: "StreamMap_at (deserialize_streams ?rest (StreamMap_put ?p ?str m)) pid =
        merge_entries (StreamMap_at (StreamMap_put ?p ?str m) pid)
          (entries_of pid (stream_entries ?rest))"
      using "1.IH" [OF True refl refl refl refl refl]
      by (simp add: add Stream_update_all)
    show ?thesis
      unfolding step ih ents
      by (simp add: entries_of_def StreamMap_at_put)
  qed
qed


text \<open>The stream entries of a section payload, after the program descriptors.\<close>

definition PMT_stream_entries :: "uint8 list \<Rightarrow> (PID \<times> uint8 \<times> Descriptor list) list" where
  "PMT_stream_entries payload =
     stream_entries
       (drop (min (unat (GetUInt16 (drop 2 payload) AND 0x0FFF)) (length payload - 4))
          (drop 4 payload))"

lemma merge_entries_append:
  "merge_entries s (es @ es') = merge_entries (merge_entries s es) es'"
  by (induction s es rule: merge_entries.induct) auto

lemma deserialize_section_streams:
  "deserialize_section sect p = Inr p' \<Longrightarrow>
     streams p' = deserialize_streams
       (drop (min (unat (GetUInt16 (drop 2 (sect_payload sect)) AND 0x0FFF))
                (length (sect_payload sect) - 4))
          (drop 4 (sect_payload sect))) (streams p)"
  by (auto simp: deserialize_section_def Let_def add.commute split: if_splits)

lemma deserialize_sections_at:
  "\<forall>s \<in> set ss. 4 \<le> length (sect_payload s) \<Longrightarrow>
     StreamMap_at (streams (deserialize_sections ss p)) pid =
       merge_entries (StreamMap_at (streams p) pid)
         (entries_of pid (concat (map (\<lambda>s. PMT_stream_entries (sect_payload s)) ss)))"
proof (induction ss arbitrary: p)
  case Nil
  show ?case by (simp add: entries_of_def)
next
  case (Cons s ss)
  show ?case
  proof (cases "deserialize_section s p")
    case (Inl p')
    with deserialize_section_Inl [OF Inl] Cons.prems show ?thesis by simp
  next
    case (Inr p')
    have "StreamMap_at (streams (deserialize_sections ss p')) pid =
       merge_entries (StreamMap_at (streams p') pid)
         (entries_of pid (concat (map (\<lambda>s. PMT_stream_entries (sect_payload s)) ss)))"
      using Cons.IH [of p'] Cons.prems by simp
    moreover have "StreamMap_at (streams p') pid =
        merge_entries (StreamMap_at (streams p) pid) (entries_of pid (PMT_stream_entries (sect_payload s)))"
      unfolding deserialize_section_streams [OF Inr] deserialize_streams_at PMT_stream_entries_def ..
    ultimately show ?thesis
      by (simp add: Inr entries_of_def merge_entries_append)
  qed
qed

text \<open>
  C3 (amended). When the stream entries of the section payloads hold a PID once or more,
  the resulting map binds the PID to the stream type of its last entry and to the
  descriptors of all its entries, in the order of the entries.
\<close>

theorem deserialize_duplicate_pid:
  assumes "isValid table" and "tableId table = TID_PMT"
    and "\<forall>s \<in> set (sections table). 4 \<le> length (sect_payload s)"
    and "es = entries_of pid (concat (map (\<lambda>s. PMT_stream_entries (sect_payload s)) (sections table)))"
    and "es \<noteq> []"
  shows "StreamMap_at (streams (deserialize this table)) pid =
     \<lparr>stream_type = fst (snd (last es)),
      stream_descs = concat (map (\<lambda>e. snd (snd e)) es)\<rparr>"
proof -
  let ?p = "this\<lparr>is_valid := False, service_id := 0, pcr_pid := PID_NULL, descs := [], streams := []\<rparr>"
  have "StreamMap_at (streams (deserialize this table)) pid =
      StreamMap_at (streams (deserialize_sections (sections table) ?p)) pid"
    using assms(1,2) by (simp add: deserialize_def Let_def)
  also have "\<dots> = merge_entries Stream_default es"
    unfolding deserialize_sections_at [OF assms(3)] assms(4) by simp
  also have "\<dots> = \<lparr>stream_type = fst (snd (last es)),
      stream_descs = stream_descs Stream_default @ concat (map (\<lambda>e. snd (snd e)) es)\<rparr>"
    by (rule merge_entries_last [OF assms(5)])
  finally show ?thesis by (simp add: Stream_default_def)
qed

definition duplicate_pid_table :: BinaryTable where
  "duplicate_pid_table =
     \<lparr>isValid = True, tableId = 0x02, sections =
        [\<lparr>sect_table_id = 0x02, is_private_section = False, tableIdExtension = 1,
          sect_version = 0, isCurrent = True, section_number = 0, last_section_number = 0,
          sect_payload = [0xE1, 0x00, 0xF0, 0x00,
                          0x1B, 0xE1, 0x00, 0xF0, 0x02, 0x0A, 0x00,
                          0x06, 0xE1, 0x00, 0xF0, 0x02, 0x6A, 0x00]\<rparr>]\<rparr>"

lemma duplicate_pid_entries:
  "PMT_stream_entries [0xE1, 0x00, 0xF0, 0x00,
                          0x1B, 0xE1, 0x00, 0xF0, 0x02, 0x0A, 0x00,
                          0x06, 0xE1, 0x00, 0xF0, 0x02, 0x6A, 0x00] =
   [(0x0100, 0x1B, [\<lparr>desc_tag = 0x0A, desc_payload = []\<rparr>]),
    (0x0100, 0x06, [\<lparr>desc_tag = 0x6A, desc_payload = []\<rparr>])]"
  by (simp add: PMT_stream_entries_def stream_entries.simps DescriptorList_add.simps)

theorem deserialize_duplicate_pid_witness:
  "isValid duplicate_pid_table \<and> tableId duplicate_pid_table = TID_PMT \<and>
   list_all (\<lambda>s. 4 \<le> length (sect_payload s)) (sections duplicate_pid_table) \<and>
   length (entries_of 0x0100 (concat (map (\<lambda>s. PMT_stream_entries (sect_payload s))
      (sections duplicate_pid_table)))) = 2 \<and>
   StreamMap_at (streams (deserialize (PMT_new 0 True 0 0) duplicate_pid_table)) 0x0100 =
     \<lparr>stream_type = 0x06,
      stream_descs = [\<lparr>desc_tag = 0x0A, desc_payload = []\<rparr>, \<lparr>desc_tag = 0x6A, desc_payload = []\<rparr>]\<rparr>"
  using deserialize_duplicate_pid [of duplicate_pid_table _ "0x0100" "PMT_new 0 True 0 0", OF _ _ _ refl]
  by (simp add: duplicate_pid_table_def TID_PMT_def duplicate_pid_entries entries_of_def)

text \<open>
  C3 as stated fails: with two entries for PID 0x0100, the first with descriptor 0x0A and
  the second with descriptor 0x6A, the stream has the type of the second entry and both
  descriptors.
\<close>

theorem duplicate_pid_counterexample:
  "streams (deserialize (PMT_new 0 True 0 0) duplicate_pid_table) =
     [(0x0100, \<lparr>stream_type = 0x06,
        stream_descs = [\<lparr>desc_tag = 0x0A, desc_payload = []\<rparr>, \<lparr>desc_tag = 0x6A, desc_payload = []\<rparr>]\<rparr>)]
   \<and> stream_descs (StreamMap_at (streams (deserialize (PMT_new 0 True 0 0) duplicate_pid_table)) 0x0100)
       \<noteq> [\<lparr>desc_tag = 0x6A, desc_payload = []\<rparr>]"
  by (simp add: duplicate_pid_table_def deserialize_def TID_PMT_def deserialize_section_def Let_def
      deserialize_streams.simps DescriptorList_add.simps Stream_default_def PMT_new_def)


section \<open>Serialization followed by deserialization\<close>











section \<open>ForkPipe: writing to the pipe\<close>

datatype InputMode = USE_PIPE | KEEP_STDIN

datatype ErrorCode =
  SYS_SUCCESS | EINTR | EPIPE | ERROR_BROKEN_PIPE | ERROR_NO_DATA | OtherError nat

datatype Severity = Error | Verbose | Debug

datatype Message = Message Severity string "ErrorCode list"

record ForkPipe =
  in_mode :: InputMode
  is_open :: bool
  synchronous :: bool
  ignore_abort :: bool
  broken_pipe :: bool

text \<open>
  What the loop of \<open>write\<close> works on: the local variables \<open>remain\<close>, \<open>data\<close> (as
  the offset \<open>data - addr\<close>), \<open>error\<close> and \<open>error_code\<close>, the member \<open>_broken_pipe\<close>,
  and the successful system writes made so far, each as the offset and the number of
  bytes the system took.
\<close>

record write_loop =
  loop_remain :: nat
  loop_data :: nat
  loop_error :: bool
  loop_error_code :: ErrorCode
  loop_broken_pipe :: bool
  loop_written :: "(nat \<times> nat) list"

text \<open>
  The run of a call: \<open>Returned\<close> with the result, \<open>AssertFailed\<close> when an \<open>assert\<close>
  of the source fails, \<open>Running\<close> when the loop is still running after the last system
  reply of the trace.
\<close>

datatype 'a run = Running | AssertFailed | Returned 'a

text \<open>
  UNIX. A reply of the system to \<open>::write (_fd, data, remain)\<close>: the value returned
  and what \<open>LastErrorCode()\<close> gives after the call.
\<close>

type_synonym unix_reply = "int \<times> ErrorCode"

definition unix_write_step :: "unix_reply \<Rightarrow> write_loop \<Rightarrow> write_loop option" where
  "unix_write_step reply st =
     (let outsize = fst reply in
      if outsize > 0 then
        if \<not> nat outsize \<le> loop_remain st then None
        else Some (st\<lparr>loop_data := loop_data st + nat outsize,
                       loop_remain := loop_remain st - max (loop_remain st) (nat outsize),
                       loop_written := loop_written st @ [(loop_data st, nat outsize)]\<rparr>)
      else if snd reply \<noteq> EINTR then
        Some (st\<lparr>loop_error_code := snd reply, loop_error := True, loop_broken_pipe := (snd reply = EPIPE)\<rparr>)
      else Some (st\<lparr>loop_error_code := snd reply\<rparr>))"

fun unix_write_loop :: "unix_reply list \<Rightarrow> write_loop \<Rightarrow> (write_loop \<times> unix_reply list) run" where
  "unix_write_loop [] st =
     (if loop_remain st > 0 \<and> \<not> loop_error st then Running else Returned (st, []))"
| "unix_write_loop (reply # os) st =
     (if loop_remain st > 0 \<and> \<not> loop_error st then
        case unix_write_step reply st of
          None \<Rightarrow> AssertFailed
        | Some st' \<Rightarrow> unix_write_loop os st'
      else Returned (st, reply # os))"

text \<open>
  Windows. A reply of the system to \<open>::WriteFile (_handle, data, remain, &outsize, NULL)\<close>:
  whether the value returned is not zero, \<open>outsize\<close>, and what \<open>LastErrorCode()\<close> gives
  after the call.
\<close>

type_synonym windows_reply = "bool \<times> nat \<times> ErrorCode"

definition windows_write_step :: "windows_reply \<Rightarrow> write_loop \<Rightarrow> write_loop option" where
  "windows_write_step reply st =
     (let outsize = fst (snd reply) in
      if fst reply then
        if \<not> outsize \<le> loop_remain st then None
        else Some (st\<lparr>loop_data := loop_data st + outsize,
                       loop_remain := loop_remain st - max (loop_remain st) outsize,
                       loop_written := loop_written st @ [(loop_data st, outsize)]\<rparr>)
      else
        Some (st\<lparr>loop_error_code := snd (snd reply), loop_error := True,
                  loop_broken_pipe := (snd (snd reply) = ERROR_BROKEN_PIPE \<or> snd (snd reply) = ERROR_NO_DATA)\<rparr>))"

fun windows_write_loop :: "windows_reply list \<Rightarrow> write_loop \<Rightarrow> (write_loop \<times> windows_reply list) run" where
  "windows_write_loop [] st =
     (if loop_remain st > 0 \<and> \<not> loop_error st then Running else Returned (st, []))"
| "windows_write_loop (reply # os) st =
     (if loop_remain st > 0 \<and> \<not> loop_error st then
        case windows_write_step reply st of
          None \<Rightarrow> AssertFailed
        | Some st' \<Rightarrow> windows_write_loop os st'
      else Returned (st, reply # os))"

text \<open>
  The result of a call of \<open>write\<close>: the value returned, the object after the call, the
  messages given to the report, the successful system writes, and the replies of the
  system that the call has not used.
\<close>

record 'r write_result =
  returned :: bool
  pipe :: ForkPipe
  reports :: "Message list"
  os_writes :: "(nat \<times> nat) list"
  os_unused :: "'r list"

text \<open>What follows the loop, on both systems.\<close>

definition write_end :: "ForkPipe \<Rightarrow> write_loop \<times> 'r list \<Rightarrow> 'r write_result" where
  "write_end fp lr =
     (let st = fst lr;
          fp' = fp\<lparr>broken_pipe := loop_broken_pipe st\<rparr>
      in if \<not> loop_error st then
           \<lparr>returned = True, pipe = fp', reports = [], os_writes = loop_written st, os_unused = snd lr\<rparr>
         else if \<not> broken_pipe fp' then
           \<lparr>returned = False, pipe = fp',
            reports = [Message Error ''error writing to pipe: %s'' [loop_error_code st]],
            os_writes = loop_written st, os_unused = snd lr\<rparr>
         else if ignore_abort fp' then
           \<lparr>returned = True, pipe = fp',
            reports = [Message Verbose ''broken pipe, stopping transmission to forked process'' []],
            os_writes = loop_written st, os_unused = snd lr\<rparr>
         else
           \<lparr>returned = False, pipe = fp', reports = [], os_writes = loop_written st, os_unused = snd lr\<rparr>)"

text \<open>What precedes the loop, on both systems: \<open>Some\<close> is an early \<open>return\<close>.\<close>

definition write_begin :: "'r list \<Rightarrow> ForkPipe \<Rightarrow> 'r write_result option" where
  "write_begin os fp =
     (if \<not> is_open fp then
        Some \<lparr>returned = False, pipe = fp, reports = [Message Error ''pipe is not open'' []],
              os_writes = [], os_unused = os\<rparr>
      else if in_mode fp \<noteq> USE_PIPE then
        Some \<lparr>returned = False, pipe = fp,
              reports = [Message Error ''process was created without pipe'' []],
              os_writes = [], os_unused = os\<rparr>
      else if broken_pipe fp then
        Some \<lparr>returned = ignore_abort fp, pipe = fp, reports = [], os_writes = [], os_unused = os\<rparr>
      else None)"

definition write_init :: "ForkPipe \<Rightarrow> nat \<Rightarrow> write_loop" where
  "write_init fp n =
     \<lparr>loop_remain = n, loop_data = 0, loop_error = False, loop_error_code = SYS_SUCCESS,
      loop_broken_pipe = broken_pipe fp, loop_written = []\<rparr>"

definition map_run :: "('a \<Rightarrow> 'b) \<Rightarrow> 'a run \<Rightarrow> 'b run" where
  "map_run f r = (case r of Running \<Rightarrow> Running | AssertFailed \<Rightarrow> AssertFailed
                  | Returned x \<Rightarrow> Returned (f x))"

text \<open>\<open>write\<close> on UNIX: \<open>size_t remain = size\<close>.\<close>

definition write_unix :: "unix_reply list \<Rightarrow> nat \<Rightarrow> ForkPipe \<Rightarrow> unix_reply write_result run" where
  "write_unix os size' fp =
     (case write_begin os fp of
        Some r \<Rightarrow> Returned r
      | None \<Rightarrow> map_run (write_end fp) (unix_write_loop os (write_init fp size')))"

text \<open>\<open>write\<close> on Windows: \<open>::DWORD remain = ::DWORD (size)\<close>, the low 32 bits of the size.\<close>

definition write_windows :: "windows_reply list \<Rightarrow> nat \<Rightarrow> ForkPipe \<Rightarrow> windows_reply write_result run" where
  "write_windows os size' fp =
     (case write_begin os fp of
        Some r \<Rightarrow> Returned r
      | None \<Rightarrow> map_run (write_end fp) (windows_write_loop os (write_init fp (size' mod 2 ^ 32))))"


lemma unix_write_loop_stop:
  "\<not> (loop_remain st > 0 \<and> \<not> loop_error st) \<Longrightarrow> unix_write_loop os st = Returned (st, os)"
  by (cases os) auto

lemma windows_write_loop_stop:
  "\<not> (loop_remain st > 0 \<and> \<not> loop_error st) \<Longrightarrow> windows_write_loop os st = Returned (st, os)"
  by (cases os) auto

text \<open>
  The property of a loop result: since the start of the loop either no system write
  succeeded, or one did and no error followed.
\<close>

definition one_write :: "write_loop \<Rightarrow> write_loop \<Rightarrow> bool" where
  "one_write st st' =
     (loop_written st' = loop_written st \<or>
      (\<exists>n. loop_written st' = loop_written st @ [(loop_data st, n)] \<and> n \<le> loop_remain st \<and>
           loop_error st' = loop_error st \<and> loop_broken_pipe st' = loop_broken_pipe st))"

lemma unix_write_loop_one_write:
  "unix_write_loop os st = Returned (st', os') \<Longrightarrow> one_write st st'"
proof (induction os arbitrary: st)
  case Nil
  then show ?case by (auto simp: one_write_def split: if_splits)
next
  case (Cons reply os)
  show ?case
  proof (cases "loop_remain st > 0 \<and> \<not> loop_error st")
    case False
    with Cons.prems show ?thesis by (auto simp: one_write_def)
  next
    case True
    show ?thesis
    proof (cases "fst reply > 0")
      case pos: True
      show ?thesis
      proof (cases "nat (fst reply) \<le> loop_remain st")
        case False
        with True pos Cons.prems show ?thesis by (simp add: unix_write_step_def Let_def)
      next
        case le: True
        let ?st1 = "st\<lparr>loop_data := loop_data st + nat (fst reply),
                       loop_remain := loop_remain st - max (loop_remain st) (nat (fst reply)),
                       loop_written := loop_written st @ [(loop_data st, nat (fst reply))]\<rparr>"
        have "unix_write_loop (reply # os) st = unix_write_loop os ?st1"
          using True pos le by (simp add: unix_write_step_def Let_def)
        also have "\<dots> = Returned (?st1, os)"
          using le by (intro unix_write_loop_stop) simp
        finally have "st' = ?st1" using Cons.prems by simp
        with le show ?thesis by (auto simp: one_write_def)
      qed
    next
      case False
      then obtain st1 where st1: "unix_write_step reply st = Some st1"
        and same: "loop_written st1 = loop_written st"
        by (cases "snd reply = EINTR") (auto simp: unix_write_step_def Let_def)
      from True st1 Cons.prems have "unix_write_loop os st1 = Returned (st', os')" by simp
      from Cons.IH [OF this] have "one_write st1 st'" .
      moreover from False st1 have "loop_data st1 = loop_data st" "loop_remain st1 = loop_remain st"
        by (auto simp: unix_write_step_def Let_def split: if_splits)
      moreover have "loop_written st' \<noteq> loop_written st1 \<Longrightarrow> \<not> loop_error st1"
      proof (rule ccontr)
        assume ne: "loop_written st' \<noteq> loop_written st1" and "\<not> \<not> loop_error st1"
        then have "unix_write_loop os st1 = Returned (st1, os)"
          by (intro unix_write_loop_stop) simp
        with \<open>unix_write_loop os st1 = Returned (st', os')\<close> ne show False by simp
      qed
      moreover from False st1 have "\<not> loop_error st1 \<Longrightarrow>
          loop_error st1 = loop_error st \<and> loop_broken_pipe st1 = loop_broken_pipe st"
        by (auto simp: unix_write_step_def Let_def split: if_splits)
      ultimately show ?thesis using same by (auto simp: one_write_def)
    qed
  qed
qed

lemma windows_write_loop_one_write:
  assumes r: "windows_write_loop os st = Returned (st', os')"
  shows "one_write st st'"
proof (cases os)
  case Nil
  with r show ?thesis by (auto simp: one_write_def split: if_splits)
next
  case (Cons reply os1)
  show ?thesis
  proof (cases "loop_remain st > 0 \<and> \<not> loop_error st")
    case False
    with r Cons show ?thesis by (auto simp: one_write_def)
  next
    case True
    show ?thesis
    proof (cases "fst reply")
      case ok: True
      show ?thesis
      proof (cases "fst (snd reply) \<le> loop_remain st")
        case False
        with True ok r Cons show ?thesis by (simp add: windows_write_step_def Let_def)
      next
        case le: True
        let ?st1 = "st\<lparr>loop_data := loop_data st + fst (snd reply),
                       loop_remain := loop_remain st - max (loop_remain st) (fst (snd reply)),
                       loop_written := loop_written st @ [(loop_data st, fst (snd reply))]\<rparr>"
        have "windows_write_loop (reply # os1) st = windows_write_loop os1 ?st1"
          using True ok le by (simp add: windows_write_step_def Let_def)
        also have "\<dots> = Returned (?st1, os1)"
          using le by (intro windows_write_loop_stop) simp
        finally have "st' = ?st1" using r Cons by simp
        with le show ?thesis by (auto simp: one_write_def)
      qed
    next
      case False
      let ?st1 = "st\<lparr>loop_error_code := snd (snd reply), loop_error := True,
                  loop_broken_pipe := (snd (snd reply) = ERROR_BROKEN_PIPE \<or> snd (snd reply) = ERROR_NO_DATA)\<rparr>"
      have "windows_write_loop (reply # os1) st = windows_write_loop os1 ?st1"
        using True False by (simp add: windows_write_step_def Let_def)
      also have "\<dots> = Returned (?st1, os1)"
        by (intro windows_write_loop_stop) simp
      finally have "st' = ?st1" using r Cons by simp
      then show ?thesis by (simp add: one_write_def)
    qed
  qed
qed

lemma write_end_one_write:
  assumes "one_write (write_init fp n) st" 
  shows "length (os_writes (write_end fp (st, os))) \<le> 1 \<and>
         (os_writes (write_end fp (st, os)) \<noteq> [] \<longrightarrow> returned (write_end fp (st, os)))"
  using assms by (auto simp: one_write_def write_init_def write_end_def Let_def)

lemma write_begin_no_write:
  "write_begin os fp = Some r \<Longrightarrow> os_writes r = []"
  by (auto simp: write_begin_def split: if_splits)

lemma write_unix_one_write:
  assumes "write_unix os n fp = Returned r"
  shows "length (os_writes r) \<le> 1 \<and> (os_writes r \<noteq> [] \<longrightarrow> returned r)"
proof (cases "write_begin os fp")
  case (Some r')
  with assms write_begin_no_write [OF Some] show ?thesis by (simp add: write_unix_def)
next
  case None
  with assms obtain st os' where l: "unix_write_loop os (write_init fp n) = Returned (st, os')"
    and r: "r = write_end fp (st, os')"
    by (auto simp: write_unix_def map_run_def split: run.splits)
  from write_end_one_write [OF unix_write_loop_one_write [OF l]] r show ?thesis by simp
qed

lemma write_windows_one_write:
  assumes "write_windows os n fp = Returned r"
  shows "length (os_writes r) \<le> 1 \<and> (os_writes r \<noteq> [] \<longrightarrow> returned r)"
proof (cases "write_begin os fp")
  case (Some r')
  with assms write_begin_no_write [OF Some] show ?thesis by (simp add: write_windows_def)
next
  case None
  with assms obtain st os' where l: "windows_write_loop os (write_init fp (n mod 2 ^ 32)) = Returned (st, os')"
    and r: "r = write_end fp (st, os')"
    by (auto simp: write_windows_def map_run_def split: run.splits)
  from write_end_one_write [OF windows_write_loop_one_write [OF l]] r show ?thesis by simp
qed

text \<open>Replies that only say the system call was interrupted.\<close>

definition interrupted :: "unix_reply list \<Rightarrow> bool" where
  "interrupted pre = list_all (\<lambda>r. fst r \<le> 0 \<and> snd r = EINTR) pre"

lemma unix_write_loop_interrupted:
  "interrupted pre \<Longrightarrow> loop_remain st > 0 \<Longrightarrow> \<not> loop_error st \<Longrightarrow>
     unix_write_loop (pre @ os) st =
       unix_write_loop os (st\<lparr>loop_error_code := (if pre = [] then loop_error_code st else EINTR)\<rparr>)"
proof (induction pre arbitrary: st)
  case Nil
  show ?case by simp
next
  case (Cons r pre)
  from Cons.prems have r: "fst r \<le> 0" "snd r = EINTR" and pre: "interrupted pre"
    by (simp_all add: interrupted_def)
  have "unix_write_loop ((r # pre) @ os) st = unix_write_loop (pre @ os) (st\<lparr>loop_error_code := EINTR\<rparr>)"
    using Cons.prems(2,3) r by (simp add: unix_write_step_def Let_def)
  also have "\<dots> = unix_write_loop os (st\<lparr>loop_error_code := EINTR\<rparr>)"
    using Cons.IH [OF pre, of "st\<lparr>loop_error_code := EINTR\<rparr>"] Cons.prems(2,3) by simp
  finally show ?case by simp
qed

text \<open>A pipe on which \<open>write\<close> reaches its loop.\<close>

definition open_pipe :: "ForkPipe \<Rightarrow> bool" where
  "open_pipe fp = (is_open fp \<and> in_mode fp = USE_PIPE \<and> \<not> broken_pipe fp)"

lemma write_begin_open: "open_pipe fp \<Longrightarrow> write_begin os fp = None"
  by (simp add: open_pipe_def write_begin_def)

lemma fp_same: "open_pipe fp \<Longrightarrow> fp\<lparr>broken_pipe := False\<rparr> = fp"
  by (simp add: open_pipe_def)

lemma write_unix_partial:
  assumes "open_pipe fp" "interrupted pre" "0 < k" "k \<le> n"
  shows "write_unix (pre @ (int k, e) # os) n fp =
     Returned \<lparr>returned = True, pipe = fp, reports = [], os_writes = [(0, k)], os_unused = os\<rparr>"
proof -
  let ?st = "(write_init fp n)\<lparr>loop_error_code := (if pre = [] then SYS_SUCCESS else EINTR)\<rparr>"
  have "unix_write_loop (pre @ (int k, e) # os) (write_init fp n) = unix_write_loop ((int k, e) # os) ?st"
    using unix_write_loop_interrupted [OF assms(2), of "write_init fp n"] assms(3,4)
    by (simp add: write_init_def)
  also have "\<dots> = unix_write_loop os (?st\<lparr>loop_data := k, loop_remain := 0, loop_written := [(0, k)]\<rparr>)"
    using assms(3,4) by (simp add: write_init_def unix_write_step_def Let_def)
  also have "\<dots> = Returned (?st\<lparr>loop_data := k, loop_remain := 0, loop_written := [(0, k)]\<rparr>, os)"
    by (intro unix_write_loop_stop) simp
  finally have loop: "unix_write_loop (pre @ (int k, e) # os) (write_init fp n) =
      Returned (?st\<lparr>loop_data := k, loop_remain := 0, loop_written := [(0, k)]\<rparr>, os)" .
  from assms(1) have fp: "\<not> broken_pipe fp" by (simp add: open_pipe_def)
  show ?thesis
    unfolding write_unix_def write_begin_open [OF assms(1)] option.case loop
    by (simp add: map_run_def write_end_def write_init_def fp)
qed

lemma write_windows_partial:
  assumes "open_pipe fp" "0 < n mod 2 ^ 32" "k \<le> n mod 2 ^ 32"
  shows "write_windows ((True, k, e) # os) n fp =
     Returned \<lparr>returned = True, pipe = fp, reports = [], os_writes = [(0, k)], os_unused = os\<rparr>"
proof -
  let ?st = "write_init fp (n mod 2 ^ 32)"
  have "windows_write_loop ((True, k, e) # os) ?st =
      windows_write_loop os (?st\<lparr>loop_data := k, loop_remain := 0, loop_written := [(0, k)]\<rparr>)"
    using assms(2,3) by (simp add: write_init_def windows_write_step_def Let_def)
  also have "\<dots> = Returned (?st\<lparr>loop_data := k, loop_remain := 0, loop_written := [(0, k)]\<rparr>, os)"
    by (intro windows_write_loop_stop) simp
  finally have loop: "windows_write_loop ((True, k, e) # os) ?st =
      Returned (?st\<lparr>loop_data := k, loop_remain := 0, loop_written := [(0, k)]\<rparr>, os)" .
  from assms(1) have fp: "\<not> broken_pipe fp" by (simp add: open_pipe_def)
  show ?thesis
    unfolding write_windows_def write_begin_open [OF assms(1)] option.case loop
    by (simp add: map_run_def write_end_def write_init_def fp)
qed

text \<open>
  C4. A call of \<open>write\<close> makes at most one successful system write, on both systems,
  and returns true when it made one: after a successful write of \<open>outsize\<close> bytes the
  loop subtracts \<open>max (remain, outsize)\<close>, all of \<open>remain\<close>. So on an open pipe, when
  the system takes \<open>k < size\<close> bytes (after any number of interrupted calls on UNIX), the
  call returns true with these \<open>k\<close> bytes written only.
\<close>

theorem write_one_system_write:
  "(write_unix os n fp = Returned r \<longrightarrow>
      length (os_writes r) \<le> 1 \<and> (os_writes r \<noteq> [] \<longrightarrow> returned r)) \<and>
   (write_windows osw n fp = Returned rw \<longrightarrow>
      length (os_writes rw) \<le> 1 \<and> (os_writes rw \<noteq> [] \<longrightarrow> returned rw)) \<and>
   (open_pipe fp \<and> interrupted pre \<and> 0 < k \<and> k < n \<longrightarrow>
      write_unix (pre @ (int k, e) # os') n fp =
        Returned \<lparr>returned = True, pipe = fp, reports = [], os_writes = [(0, k)],
                  os_unused = os'\<rparr>) \<and>
   (open_pipe fp \<and> 0 < n mod 2 ^ 32 \<and> k \<le> n mod 2 ^ 32 \<and> k < n \<longrightarrow>
      write_windows ((True, k, e') # osw') n fp =
        Returned \<lparr>returned = True, pipe = fp, reports = [], os_writes = [(0, k)],
                  os_unused = osw'\<rparr>)"
  using write_unix_one_write [of os n fp r] write_windows_one_write [of osw n fp rw]
    write_unix_partial [of fp pre k n e os'] write_windows_partial [of fp n k e' osw']
  by simp


definition example_pipe :: ForkPipe where
  "example_pipe = \<lparr>in_mode = USE_PIPE, is_open = True, synchronous = False,
                    ignore_abort = True, broken_pipe = False\<rparr>"

theorem write_one_system_write_witness:
  "open_pipe example_pipe \<and> interrupted [(- 1, EINTR)] \<and>
   write_unix [(- 1, EINTR), (3, SYS_SUCCESS)] 10 example_pipe =
     Returned \<lparr>returned = True, pipe = example_pipe, reports = [], os_writes = [(0, 3)],
               os_unused = []\<rparr> \<and>
   write_windows [(True, 3, SYS_SUCCESS)] 10 example_pipe =
     Returned \<lparr>returned = True, pipe = example_pipe, reports = [], os_writes = [(0, 3)],
               os_unused = []\<rparr> \<and>
   length (os_writes \<lparr>returned = True, pipe = example_pipe, reports = [],
             os_writes = [(0, 3 :: nat)], os_unused = [] :: unix_reply list\<rparr>) \<le> 1"
proof -
  have o: "open_pipe example_pipe" by (simp add: open_pipe_def example_pipe_def)
  have i: "interrupted [(- 1, EINTR)]" by (simp add: interrupted_def)
  let ?r = "\<lparr>returned = True, pipe = example_pipe, reports = [],
             os_writes = [(0, 3 :: nat)], os_unused = [] :: unix_reply list\<rparr>"
  let ?rw = "\<lparr>returned = True, pipe = example_pipe, reports = [],
             os_writes = [(0, 3 :: nat)], os_unused = [] :: windows_reply list\<rparr>"
  from write_one_system_write [of "[(- 1, EINTR), (3, SYS_SUCCESS)]" 10 example_pipe ?r
      "[(True, 3, SYS_SUCCESS)]" ?rw "[(- 1, EINTR)]" 3 SYS_SUCCESS "[]" SYS_SUCCESS "[]"] o i
  show ?thesis by simp
qed

lemma write_on_broken_pipe:
  assumes "is_open fp" "in_mode fp = USE_PIPE" "broken_pipe fp"
  shows "write_unix os n fp =
           Returned \<lparr>returned = ignore_abort fp, pipe = fp, reports = [], os_writes = [],
                     os_unused = os\<rparr>"
    and "write_windows osw n fp =
           Returned \<lparr>returned = ignore_abort fp, pipe = fp, reports = [], os_writes = [],
                     os_unused = osw\<rparr>"
  using assms by (simp_all add: write_unix_def write_windows_def write_begin_def)

lemma write_unix_failure:
  assumes "open_pipe fp" "interrupted pre" "0 < n" "out \<le> 0" "e \<noteq> EINTR"
  shows "write_unix (pre @ (out, e) # os) n fp =
     Returned (write_end fp
       ((write_init fp n)\<lparr>loop_error_code := e, loop_error := True,
                            loop_broken_pipe := (e = EPIPE)\<rparr>, os))"
proof -
  let ?st = "(write_init fp n)\<lparr>loop_error_code := (if pre = [] then SYS_SUCCESS else EINTR)\<rparr>"
  let ?st' = "(write_init fp n)\<lparr>loop_error_code := e, loop_error := True,
                            loop_broken_pipe := (e = EPIPE)\<rparr>"
  have "unix_write_loop (pre @ (out, e) # os) (write_init fp n) = unix_write_loop ((out, e) # os) ?st"
    using unix_write_loop_interrupted [OF assms(2), of "write_init fp n"] assms(3)
    by (simp add: write_init_def)
  also have "\<dots> = unix_write_loop os ?st'"
    using assms(3,4,5) by (simp add: write_init_def unix_write_step_def Let_def)
  also have "\<dots> = Returned (?st', os)"
    by (intro unix_write_loop_stop) simp
  finally have loop: "unix_write_loop (pre @ (out, e) # os) (write_init fp n) = Returned (?st', os)" .
  show ?thesis
    unfolding write_unix_def write_begin_open [OF assms(1)] option.case loop
    by (simp add: map_run_def)
qed

lemma write_windows_failure:
  assumes "open_pipe fp" "0 < n mod 2 ^ 32"
  shows "write_windows ((False, k, e) # os) n fp =
     Returned (write_end fp
       ((write_init fp (n mod 2 ^ 32))\<lparr>loop_error_code := e, loop_error := True,
            loop_broken_pipe := (e = ERROR_BROKEN_PIPE \<or> e = ERROR_NO_DATA)\<rparr>, os))"
proof -
  let ?st' = "(write_init fp (n mod 2 ^ 32))\<lparr>loop_error_code := e, loop_error := True,
            loop_broken_pipe := (e = ERROR_BROKEN_PIPE \<or> e = ERROR_NO_DATA)\<rparr>"
  have "windows_write_loop ((False, k, e) # os) (write_init fp (n mod 2 ^ 32)) =
      windows_write_loop os ?st'"
    using assms(2) by (simp add: write_init_def windows_write_step_def Let_def)
  also have "\<dots> = Returned (?st', os)"
    by (intro windows_write_loop_stop) simp
  finally have loop: "windows_write_loop ((False, k, e) # os) (write_init fp (n mod 2 ^ 32)) =
      Returned (?st', os)" .
  show ?thesis
    unfolding write_windows_def write_begin_open [OF assms(1)] option.case loop
    by (simp add: map_run_def)
qed

definition broken_pipe_message :: Message where
  "broken_pipe_message =
     Message Verbose ''broken pipe, stopping transmission to forked process'' []"

definition write_error_message :: "ErrorCode \<Rightarrow> Message" where
  "write_error_message e = Message Error ''error writing to pipe: %s'' [e]"

text \<open>
  C10 (amended). On an open pipe, a write that the system refuses with a broken pipe
  (\<open>EPIPE\<close> on UNIX, \<open>ERROR_BROKEN_PIPE\<close> or \<open>ERROR_NO_DATA\<close> on Windows) marks the
  pipe broken; with ignore-abort set it returns true and reports a verbose message and
  no error, with ignore-abort not set it returns false and reports nothing. A write on a
  pipe marked broken returns the ignore-abort flag, makes no system call and leaves the
  object as it is, so every later write does the same. A system write that fails with
  any other code is reported as an error and the call returns false.
\<close>

theorem write_broken_pipe_demoted:
  "(open_pipe fp \<and> ignore_abort fp \<and> interrupted pre \<and> 0 < n \<and> out \<le> 0 \<longrightarrow>
      write_unix (pre @ (out, EPIPE) # os) n fp =
        Returned \<lparr>returned = True, pipe = fp\<lparr>broken_pipe := True\<rparr>,
                  reports = [broken_pipe_message], os_writes = [], os_unused = os\<rparr>) \<and>
   (open_pipe fp \<and> ignore_abort fp \<and> 0 < n mod 2 ^ 32 \<and>
    (ew = ERROR_BROKEN_PIPE \<or> ew = ERROR_NO_DATA) \<longrightarrow>
      write_windows ((False, k, ew) # osw) n fp =
        Returned \<lparr>returned = True, pipe = fp\<lparr>broken_pipe := True\<rparr>,
                  reports = [broken_pipe_message], os_writes = [], os_unused = osw\<rparr>) \<and>
   (is_open fp' \<and> in_mode fp' = USE_PIPE \<and> broken_pipe fp' \<longrightarrow>
      write_unix os' n' fp' =
        Returned \<lparr>returned = ignore_abort fp', pipe = fp', reports = [], os_writes = [],
                  os_unused = os'\<rparr> \<and>
      write_windows osw' n' fp' =
        Returned \<lparr>returned = ignore_abort fp', pipe = fp', reports = [], os_writes = [],
                  os_unused = osw'\<rparr>) \<and>
   (open_pipe fp \<and> interrupted pre \<and> 0 < n \<and> out \<le> 0 \<and> e \<noteq> EINTR \<and> e \<noteq> EPIPE \<longrightarrow>
      write_unix (pre @ (out, e) # os) n fp =
        Returned \<lparr>returned = False, pipe = fp, reports = [write_error_message e],
                  os_writes = [], os_unused = os\<rparr>) \<and>
   (open_pipe fp \<and> 0 < n mod 2 ^ 32 \<and> e \<noteq> ERROR_BROKEN_PIPE \<and> e \<noteq> ERROR_NO_DATA \<longrightarrow>
      write_windows ((False, k, e) # osw) n fp =
        Returned \<lparr>returned = False, pipe = fp, reports = [write_error_message e],
                  os_writes = [], os_unused = osw\<rparr>) \<and>
   (open_pipe fq \<and> \<not> ignore_abort fq \<and> interrupted pre \<and> 0 < n \<and> out \<le> 0 \<longrightarrow>
      write_unix (pre @ (out, EPIPE) # os) n fq =
        Returned \<lparr>returned = False, pipe = fq\<lparr>broken_pipe := True\<rparr>,
                  reports = [], os_writes = [], os_unused = os\<rparr>) \<and>
   (open_pipe fq \<and> \<not> ignore_abort fq \<and> 0 < n mod 2 ^ 32 \<and>
    (ew = ERROR_BROKEN_PIPE \<or> ew = ERROR_NO_DATA) \<longrightarrow>
      write_windows ((False, k, ew) # osw) n fq =
        Returned \<lparr>returned = False, pipe = fq\<lparr>broken_pipe := True\<rparr>,
                  reports = [], os_writes = [], os_unused = osw\<rparr>)"
proof -
  have 1: "write_unix (pre @ (out, EPIPE) # os) n fp =
        Returned \<lparr>returned = True, pipe = fp\<lparr>broken_pipe := True\<rparr>,
                  reports = [broken_pipe_message], os_writes = [], os_unused = os\<rparr>"
    if "open_pipe fp" "ignore_abort fp" "interrupted pre" "0 < n" "out \<le> 0"
    using that write_unix_failure [of fp pre n out EPIPE os]
    by (simp add: write_end_def write_init_def broken_pipe_message_def Let_def)
  have 2: "write_windows ((False, k, ew) # osw) n fp =
        Returned \<lparr>returned = True, pipe = fp\<lparr>broken_pipe := True\<rparr>,
                  reports = [broken_pipe_message], os_writes = [], os_unused = osw\<rparr>"
    if "open_pipe fp" "ignore_abort fp" "0 < n mod 2 ^ 32" "ew = ERROR_BROKEN_PIPE \<or> ew = ERROR_NO_DATA"
    using that write_windows_failure [of fp n k ew osw]
    by (auto simp: write_end_def write_init_def broken_pipe_message_def Let_def)
  have 4: "write_unix (pre @ (out, e) # os) n fp =
        Returned \<lparr>returned = False, pipe = fp, reports = [write_error_message e],
                  os_writes = [], os_unused = os\<rparr>"
    if "open_pipe fp" "interrupted pre" "0 < n" "out \<le> 0" "e \<noteq> EINTR" "e \<noteq> EPIPE"
    using that write_unix_failure [of fp pre n out e os]
    by (simp add: write_end_def write_init_def write_error_message_def fp_same Let_def open_pipe_def)
  have 5: "write_windows ((False, k, e) # osw) n fp =
        Returned \<lparr>returned = False, pipe = fp, reports = [write_error_message e],
                  os_writes = [], os_unused = osw\<rparr>"
    if "open_pipe fp" "0 < n mod 2 ^ 32" "e \<noteq> ERROR_BROKEN_PIPE" "e \<noteq> ERROR_NO_DATA"
    using that write_windows_failure [of fp n k e osw]
    by (simp add: write_end_def write_init_def write_error_message_def fp_same Let_def open_pipe_def)
  have 6: "write_unix (pre @ (out, EPIPE) # os) n fq =
        Returned \<lparr>returned = False, pipe = fq\<lparr>broken_pipe := True\<rparr>,
                  reports = [], os_writes = [], os_unused = os\<rparr>"
    if "open_pipe fq" "\<not> ignore_abort fq" "interrupted pre" "0 < n" "out \<le> 0"
    using that write_unix_failure [of fq pre n out EPIPE os]
    by (simp add: write_end_def write_init_def Let_def)
  have 7: "write_windows ((False, k, ew) # osw) n fq =
        Returned \<lparr>returned = False, pipe = fq\<lparr>broken_pipe := True\<rparr>,
                  reports = [], os_writes = [], os_unused = osw\<rparr>"
    if "open_pipe fq" "\<not> ignore_abort fq" "0 < n mod 2 ^ 32" "ew = ERROR_BROKEN_PIPE \<or> ew = ERROR_NO_DATA"
    using that write_windows_failure [of fq n k ew osw]
    by (auto simp: write_end_def write_init_def Let_def)
  have 3: "write_unix os' n' fp' =
        Returned \<lparr>returned = ignore_abort fp', pipe = fp', reports = [], os_writes = [],
                  os_unused = os'\<rparr> \<and>
      write_windows osw' n' fp' =
        Returned \<lparr>returned = ignore_abort fp', pipe = fp', reports = [], os_writes = [],
                  os_unused = osw'\<rparr>"
    if "is_open fp'" "in_mode fp' = USE_PIPE" "broken_pipe fp'"
    using write_on_broken_pipe [OF that] by simp
  show ?thesis
  proof (intro conjI impI)
    show "write_unix os' n' fp' =
        Returned \<lparr>returned = ignore_abort fp', pipe = fp', reports = [], os_writes = [],
                  os_unused = os'\<rparr>"
      if "is_open fp' \<and> in_mode fp' = USE_PIPE \<and> broken_pipe fp'"
      using 3 that by simp
    show "write_windows osw' n' fp' =
        Returned \<lparr>returned = ignore_abort fp', pipe = fp', reports = [], os_writes = [],
                  os_unused = osw'\<rparr>"
      if "is_open fp' \<and> in_mode fp' = USE_PIPE \<and> broken_pipe fp'"
      using 3 that by simp
  qed (simp_all add: 1 2 4 5 6 7)
qed

definition abort_pipe :: ForkPipe where
  "abort_pipe = example_pipe\<lparr>ignore_abort := False\<rparr>"

theorem write_broken_pipe_demoted_witness:
  "open_pipe example_pipe \<and> ignore_abort example_pipe \<and>
   open_pipe abort_pipe \<and> \<not> ignore_abort abort_pipe \<and>
   write_unix [(- 1, EINTR), (- 1, EPIPE)] 10 example_pipe =
     Returned \<lparr>returned = True, pipe = example_pipe\<lparr>broken_pipe := True\<rparr>,
               reports = [broken_pipe_message], os_writes = [], os_unused = []\<rparr> \<and>
   write_windows [(False, 0, ERROR_NO_DATA)] 10 example_pipe =
     Returned \<lparr>returned = True, pipe = example_pipe\<lparr>broken_pipe := True\<rparr>,
               reports = [broken_pipe_message], os_writes = [], os_unused = []\<rparr> \<and>
   write_unix [(5, SYS_SUCCESS)] 5 (example_pipe\<lparr>broken_pipe := True\<rparr>) =
     Returned \<lparr>returned = True, pipe = example_pipe\<lparr>broken_pipe := True\<rparr>,
               reports = [], os_writes = [], os_unused = [(5, SYS_SUCCESS)]\<rparr> \<and>
   write_windows [(True, 5, SYS_SUCCESS)] 5 (example_pipe\<lparr>broken_pipe := True\<rparr>) =
     Returned \<lparr>returned = True, pipe = example_pipe\<lparr>broken_pipe := True\<rparr>,
               reports = [], os_writes = [], os_unused = [(True, 5, SYS_SUCCESS)]\<rparr> \<and>
   write_unix [(- 1, EINTR), (- 1, OtherError 5)] 10 example_pipe =
     Returned \<lparr>returned = False, pipe = example_pipe,
               reports = [write_error_message (OtherError 5)], os_writes = [], os_unused = []\<rparr> \<and>
   write_windows [(False, 0, OtherError 5)] 10 example_pipe =
     Returned \<lparr>returned = False, pipe = example_pipe,
               reports = [write_error_message (OtherError 5)], os_writes = [], os_unused = []\<rparr> \<and>
   write_unix [(- 1, EINTR), (- 1, EPIPE)] 10 abort_pipe =
     Returned \<lparr>returned = False, pipe = abort_pipe\<lparr>broken_pipe := True\<rparr>,
               reports = [], os_writes = [], os_unused = []\<rparr> \<and>
   write_windows [(False, 0, ERROR_NO_DATA)] 10 abort_pipe =
     Returned \<lparr>returned = False, pipe = abort_pipe\<lparr>broken_pipe := True\<rparr>,
               reports = [], os_writes = [], os_unused = []\<rparr>"
proof -
  have o: "open_pipe example_pipe" "ignore_abort example_pipe"
    by (simp_all add: open_pipe_def example_pipe_def)
  have a: "open_pipe abort_pipe" "\<not> ignore_abort abort_pipe"
    by (simp_all add: open_pipe_def abort_pipe_def example_pipe_def)
  have i: "interrupted [(- 1, EINTR)]" by (simp add: interrupted_def)
  have b: "is_open (example_pipe\<lparr>broken_pipe := True\<rparr>)"
    "in_mode (example_pipe\<lparr>broken_pipe := True\<rparr>) = USE_PIPE"
    "broken_pipe (example_pipe\<lparr>broken_pipe := True\<rparr>)"
    "ignore_abort (example_pipe\<lparr>broken_pipe := True\<rparr>)"
    by (simp_all add: example_pipe_def)
  from write_broken_pipe_demoted [of example_pipe "[(- 1, EINTR)]" 10 "- 1" "[]" ERROR_NO_DATA 0 "[]"
      "example_pipe\<lparr>broken_pipe := True\<rparr>" "[(5, SYS_SUCCESS)]" 5 "[(True, 5, SYS_SUCCESS)]"
      "OtherError 5" abort_pipe] o a i b
  show ?thesis by simp
qed

text \<open>
  C10 as stated fails on a write failure that is a broken pipe while ignore-abort is not
  set: the call returns false, and the report receives no message at all, on UNIX and on
  Windows.
\<close>

theorem write_broken_pipe_silent_counterexample:
  "is_open abort_pipe \<and> in_mode abort_pipe = USE_PIPE \<and> ignore_abort abort_pipe = False \<and>
   broken_pipe abort_pipe = False \<and>
   write_unix [(- 1, EPIPE)] 10 abort_pipe =
     Returned \<lparr>returned = False, pipe = abort_pipe\<lparr>broken_pipe := True\<rparr>,
               reports = [], os_writes = [], os_unused = []\<rparr> \<and>
   write_windows [(False, 0, ERROR_BROKEN_PIPE)] 10 abort_pipe =
     Returned \<lparr>returned = False, pipe = abort_pipe\<lparr>broken_pipe := True\<rparr>,
               reports = [], os_writes = [], os_unused = []\<rparr>"
proof -
  have a: "open_pipe abort_pipe"
    by (simp add: open_pipe_def abort_pipe_def example_pipe_def)
  have i: "interrupted []" by (simp add: interrupted_def)
  have u: "write_unix [(- 1, EPIPE)] 10 abort_pipe =
     Returned \<lparr>returned = False, pipe = abort_pipe\<lparr>broken_pipe := True\<rparr>,
               reports = [], os_writes = [], os_unused = []\<rparr>"
    using write_unix_failure [OF a i, of 10 "- 1" EPIPE "[]"]
    by (simp add: write_end_def write_init_def Let_def abort_pipe_def example_pipe_def)
  have w: "write_windows [(False, 0, ERROR_BROKEN_PIPE)] 10 abort_pipe =
     Returned \<lparr>returned = False, pipe = abort_pipe\<lparr>broken_pipe := True\<rparr>,
               reports = [], os_writes = [], os_unused = []\<rparr>"
    using write_windows_failure [OF a, of 10 0 ERROR_BROKEN_PIPE "[]"]
    by (simp add: write_end_def write_init_def Let_def abort_pipe_def example_pipe_def)
  from u w show ?thesis by (simp add: abort_pipe_def example_pipe_def)
qed


section \<open>Joint termination\<close>










































section \<open>The Modified Julian Date codec\<close>

text \<open>
  A UTC time, by its fields, to the second.
\<close>

record Time =
  year :: int
  month :: int
  day :: int
  hour :: nat
  minute :: nat
  second :: nat

text \<open>
  Modelled from the spec: the bodies of \<open>DecodeMJD\<close> and \<open>EncodeMJD\<close> are not in the
  sources, which only declare them. The spec gives the conversion of the day count into
  a date: \<open>Y' = floor ((MJD - 15078.2) / 365.25)\<close>,
  \<open>M' = floor ((MJD - 14956.1 - floor (Y' * 365.25)) / 30.6001)\<close>,
  \<open>D = MJD - 14956 - floor (Y' * 365.25) - floor (M' * 30.6001)\<close>, \<open>K = 1\<close> if \<open>M'\<close> is 14
  or 15 and 0 otherwise, \<open>Y = 1900 + Y' + K\<close>, \<open>M = M' - 1 - 12 K\<close>. The fractions are
  exact rational numbers here.
\<close>

definition mjd_year' :: "int \<Rightarrow> int" where
  "mjd_year' mjd = \<lfloor>(of_int mjd - 15078.2) / 365.25 :: rat\<rfloor>"

definition mjd_month' :: "int \<Rightarrow> int" where
  "mjd_month' mjd =
     \<lfloor>(of_int mjd - 14956.1 - of_int \<lfloor>of_int (mjd_year' mjd) * 365.25 :: rat\<rfloor>) / 30.6001 :: rat\<rfloor>"

definition mjd_day :: "int \<Rightarrow> int" where
  "mjd_day mjd =
     mjd - 14956 - \<lfloor>of_int (mjd_year' mjd) * 365.25 :: rat\<rfloor>
       - \<lfloor>of_int (mjd_month' mjd) * 30.6001 :: rat\<rfloor>"

lemma floor_365: "\<lfloor>of_int y * 365.25 :: rat\<rfloor> = (y * 1461) div 4"
proof -
  have "(of_int y * 365.25 :: rat) = of_int (y * 1461) / of_int 4" by simp
  then show ?thesis by (simp only: floor_divide_of_int_eq)
qed

lemma floor_306: "\<lfloor>of_int m * 30.6001 :: rat\<rfloor> = (m * 306001) div 10000"
proof -
  have "(of_int m * 30.6001 :: rat) = of_int (m * 306001) / of_int 10000" by simp
  then show ?thesis by (simp only: floor_divide_of_int_eq)
qed

lemma mjd_year'_int: "mjd_year' mjd = (mjd * 100 - 1507820) div 36525"
proof -
  have "((of_int mjd - 15078.2) / 365.25 :: rat) = of_int (mjd * 100 - 1507820) / of_int 36525"
    by (simp add: field_simps)
  then show ?thesis unfolding mjd_year'_def by (simp only: floor_divide_of_int_eq)
qed

lemma mjd_month'_int:
  "mjd_month' mjd = ((mjd - (mjd_year' mjd * 1461) div 4) * 10000 - 149561000) div 306001"
proof -
  have "((of_int mjd - 14956.1 - of_int ((mjd_year' mjd * 1461) div 4)) / 30.6001 :: rat) =
      of_int ((mjd - (mjd_year' mjd * 1461) div 4) * 10000 - 149561000) / of_int 306001"
    by (simp add: field_simps)
  then show ?thesis unfolding mjd_month'_def floor_365 by (simp only: floor_divide_of_int_eq)
qed


definition mjd_to_date :: "int \<Rightarrow> int \<times> int \<times> int" where
  "mjd_to_date mjd =
     (let y' = mjd_year' mjd;
          m' = mjd_month' mjd;
          d = mjd_day mjd;
          k = (if m' = 14 \<or> m' = 15 then 1 else 0)
      in (1900 + y' + k, m' - 1 - 12 * k, d))"

text \<open>
  Modelled from the spec: \<open>encode\<close> is specified as the inverse of \<open>decode\<close>. The day
  count of a date is computed by the formula that inverts the one above:
  \<open>MJD = 14956 + D + floor ((Y - 1900 - L) * 365.25) + floor ((M + 1 + 12 L) * 30.6001)\<close>
  with \<open>L = 1\<close> for January and February and 0 otherwise; that it is the inverse is
  proved below (\<open>mjd_to_date_date_to_mjd\<close>).
\<close>

definition date_to_mjd :: "int \<Rightarrow> int \<Rightarrow> int \<Rightarrow> int" where
  "date_to_mjd y m d =
     (let l = (if m = 1 \<or> m = 2 then 1 else 0)
      in 14956 + d + \<lfloor>of_int (y - 1900 - l) * 365.25 :: rat\<rfloor>
           + \<lfloor>of_int (m + 1 + 12 * l) * 30.6001 :: rat\<rfloor>)"

text \<open>The dates of the Gregorian calendar.\<close>

definition leap_year :: "int \<Rightarrow> bool" where
  "leap_year y = (y mod 4 = 0 \<and> y mod 100 \<noteq> 0 \<or> y mod 400 = 0)"

definition days_in_month :: "int \<Rightarrow> int \<Rightarrow> int" where
  "days_in_month y m =
     (if m = 2 then (if leap_year y then 29 else 28)
      else if m = 4 \<or> m = 6 \<or> m = 9 \<or> m = 11 then 30 else 31)"

definition date_ok :: "int \<Rightarrow> int \<Rightarrow> int \<Rightarrow> bool" where
  "date_ok y m d = (1 \<le> m \<and> m \<le> 12 \<and> 1 \<le> d \<and> d \<le> days_in_month y m)"

text \<open>The date \<open>(y, m, d)\<close> is before the date \<open>(y', m', d')\<close>.\<close>

definition date_before :: "int \<times> int \<times> int \<Rightarrow> int \<times> int \<times> int \<Rightarrow> bool" where
  "date_before a b =
     (case a of (y, m, d) \<Rightarrow> case b of (y', m', d') \<Rightarrow>
        y < y' \<or> (y = y' \<and> (m < m' \<or> (m = m' \<and> d < d'))))"

lemma int_div_eqI: "0 < b \<Longrightarrow> b * k \<le> a \<Longrightarrow> a < b * k + b \<Longrightarrow> a div b = (k :: int)"
  by (rule int_div_pos_eq [of a b k "a - b * k"]) simp_all


text \<open>
  The year part of the day count of a date: \<open>yy\<close> years after March 1900, and \<open>x\<close> the
  day of the month plus the days of the months since March.
\<close>

lemma year_of_days:
  assumes yy: "0 \<le> (yy :: int)" and lo: "123 \<le> (x :: int)"
    and hi: "x \<le> 487 \<or> (x = 488 \<and> yy mod 4 = 3)"
  shows "((14956 + x + (yy * 1461) div 4) * 100 - 1507820) div 36525 = yy"
proof -
  define A where "A = (yy * 1461) div 4"
  define r where "r = (yy * 1461) mod 4"
  have eq: "yy * 1461 = 4 * A + r"
    unfolding A_def r_def by simp
  have r: "0 \<le> r" "r < 4"
    unfolding r_def by simp_all
  have r3: "r = 3" if "yy mod 4 = 3"
  proof -
    have "(yy * 1461) mod 4 = ((yy mod 4) * (1461 mod 4)) mod 4"
      by (simp only: mod_mult_eq)
    with that show ?thesis unfolding r_def by simp
  qed
  have up: "100 * x < 48745 + 25 * r"
  proof (cases "x \<le> 487")
    case True
    with r show ?thesis by linarith
  next
    case False
    with hi have "x = 488" "yy mod 4 = 3" by simp_all
    with r3 show ?thesis by simp
  qed
  have a: "36525 * yy \<le> (14956 + x + A) * 100 - 1507820"
    using eq r lo by (simp add: distrib_right)
  have b: "(14956 + x + A) * 100 - 1507820 < 36525 * yy + 36525"
    using eq r up by (simp add: distrib_right)
  show ?thesis
    unfolding A_def [symmetric] using a b by (intro int_div_eqI) simp_all
qed

lemma month_of_days:
  assumes "306001 * mm + 1000 \<le> 10000 * (x :: int)" "10000 * x < 306001 * mm + 307001"
  shows "((14956 + x) * 10000 - 149561000) div 306001 = mm"
proof -
  have a: "306001 * mm \<le> (14956 + x) * 10000 - 149561000"
    using assms by (simp add: distrib_right)
  have b: "(14956 + x) * 10000 - 149561000 < 306001 * mm + 306001"
    using assms by (simp add: distrib_right)
  show ?thesis using a b by (intro int_div_eqI) simp_all
qed

text \<open>The months from March (4) to February (15), and the days before them.\<close>

lemma month_cases:
  "1 \<le> (m :: int) \<Longrightarrow> m \<le> 12 \<Longrightarrow>
     m = 1 \<or> m = 2 \<or> m = 3 \<or> m = 4 \<or> m = 5 \<or> m = 6 \<or>
     m = 7 \<or> m = 8 \<or> m = 9 \<or> m = 10 \<or> m = 11 \<or> m = 12"
  by presburger


lemma date_core:
  fixes yy mm d B :: int
  assumes yy: "0 \<le> yy"
    and B: "(mm * 306001) div 10000 = B"
    and lo: "123 \<le> d + B"
    and hi: "d + B \<le> 487 \<or> (d + B = 488 \<and> yy mod 4 = 3)"
    and mlo: "306001 * mm + 1000 \<le> 10000 * (d + B)"
    and mhi: "10000 * (d + B) < 306001 * mm + 307001"
  shows "mjd_year' (14956 + d + (yy * 1461) div 4 + B) = yy"
    and "mjd_month' (14956 + d + (yy * 1461) div 4 + B) = mm"
    and "mjd_day (14956 + d + (yy * 1461) div 4 + B) = d"
proof -
  let ?mjd = "14956 + d + (yy * 1461) div 4 + B"
  have e: "?mjd = 14956 + (d + B) + (yy * 1461) div 4" by simp
  show y: "mjd_year' ?mjd = yy"
    unfolding mjd_year'_int e by (rule year_of_days [OF yy lo hi])
  have e2: "?mjd - (yy * 1461) div 4 = 14956 + (d + B)" by simp
  show m: "mjd_month' ?mjd = mm"
    unfolding mjd_month'_int y e2 by (rule month_of_days [OF mlo mhi])
  show "mjd_day ?mjd = d"
    unfolding mjd_day_def y m floor_365 floor_306 B by simp
qed

lemma leap_year_mod4: "leap_year y \<Longrightarrow> y mod 4 = 0"
  unfolding leap_year_def by presburger

lemma date_to_mjd_int:
  "date_to_mjd y m d =
     14956 + d + ((y - 1900 - (if m = 1 \<or> m = 2 then 1 else 0)) * 1461) div 4
       + ((m + 1 + 12 * (if m = 1 \<or> m = 2 then 1 else 0)) * 306001) div 10000"
  unfolding date_to_mjd_def Let_def floor_365 floor_306 ..

lemma mjd_to_date_march_on:
  fixes y m d B :: int
  assumes m: "3 \<le> m" "m \<le> 12" and y: "1900 \<le> y"
    and B: "((m + 1) * 306001) div 10000 = B"
    and lo: "123 \<le> d + B" and hi: "d + B \<le> 487"
    and mlo: "306001 * (m + 1) + 1000 \<le> 10000 * (d + B)"
    and mhi: "10000 * (d + B) < 306001 * (m + 1) + 307001"
  shows "mjd_to_date (date_to_mjd y m d) = (y, m, d)"
proof -
  from m have l: "(if m = 1 \<or> m = 2 then 1 else 0) = (0 :: int)" by simp
  have mjd: "date_to_mjd y m d = 14956 + d + ((y - 1900) * 1461) div 4 + B"
    unfolding date_to_mjd_int l using B by simp
  from y have yy: "0 \<le> y - 1900" by simp
  from hi have hi': "d + B \<le> 487 \<or> (d + B = 488 \<and> (y - 1900) mod 4 = 3)" by simp
  note c = date_core [OF yy B lo hi' mlo mhi]
  from m have k: "\<not> (m + 1 = 14 \<or> m + 1 = 15)" by simp
  show ?thesis
    unfolding mjd mjd_to_date_def Let_def c using k by simp
qed

lemma mjd_to_date_jan_feb:
  fixes y m d B :: int
  assumes m: "m = 1 \<or> m = 2" and y: "1901 \<le> y"
    and B: "((m + 13) * 306001) div 10000 = B"
    and lo: "123 \<le> d + B" and hi: "d + B \<le> 487 \<or> (d + B = 488 \<and> y mod 4 = 0)"
    and mlo: "306001 * (m + 13) + 1000 \<le> 10000 * (d + B)"
    and mhi: "10000 * (d + B) < 306001 * (m + 13) + 307001"
  shows "mjd_to_date (date_to_mjd y m d) = (y, m, d)"
proof -
  from m have l: "(if m = 1 \<or> m = 2 then 1 else 0) = (1 :: int)" by simp
  have mjd: "date_to_mjd y m d = 14956 + d + ((y - 1901) * 1461) div 4 + B"
    unfolding date_to_mjd_int l using B by simp
  from y have yy: "0 \<le> y - 1901" by simp
  have y3: "(y - 1901) mod 4 = 3" if "y mod 4 = 0"
    using that by presburger
  have hi': "d + B \<le> 487 \<or> (d + B = 488 \<and> (y - 1901) mod 4 = 3)"
  proof (cases "d + B \<le> 487")
    case True
    then show ?thesis by simp
  next
    case False
    with hi have "d + B = 488" "y mod 4 = 0" by simp_all
    with y3 show ?thesis by simp
  qed
  note c = date_core [OF yy B lo hi' mlo mhi]
  from m have k: "m + 13 = 14 \<or> m + 13 = 15" by auto
  show ?thesis
    unfolding mjd mjd_to_date_def Let_def c using k by auto
qed

lemma mjd_to_date_date_to_mjd:
  assumes ok: "date_ok y m d"
    and since: "\<not> date_before (y, m, d) (1900, 3, 1)"
  shows "mjd_to_date (date_to_mjd y m d) = (y, m, d)"
proof -
  from ok have m: "1 \<le> m" "m \<le> 12" and d: "1 \<le> d" "d \<le> days_in_month y m"
    by (simp_all add: date_ok_def)
  from since have y: "1900 \<le> y" and y': "m \<le> 2 \<Longrightarrow> 1901 \<le> y"
    by (auto simp: date_before_def)
  from month_cases [OF m]
  consider "m = 1" | "m = 2" | "m = 3" | "m = 4" | "m = 5" | "m = 6"
    | "m = 7" | "m = 8" | "m = 9" | "m = 10" | "m = 11" | "m = 12" by blast
  then show ?thesis
  proof cases
    case 1
    with d y' show ?thesis
      by (intro mjd_to_date_jan_feb [where B = 428]) (simp_all add: days_in_month_def)
  next
    case 2
    have "d \<le> 28 \<or> (d = 29 \<and> y mod 4 = 0)"
      using d 2 leap_year_mod4 [of y] by (auto simp: days_in_month_def split: if_splits)
    with 2 d y' show ?thesis
      by (intro mjd_to_date_jan_feb [where B = 459]) auto
  next
    case 3
    with d y show ?thesis
      by (intro mjd_to_date_march_on [where B = 122]) (simp_all add: days_in_month_def)
  next
    case 4
    with d y show ?thesis
      by (intro mjd_to_date_march_on [where B = 153]) (simp_all add: days_in_month_def)
  next
    case 5
    with d y show ?thesis
      by (intro mjd_to_date_march_on [where B = 183]) (simp_all add: days_in_month_def)
  next
    case 6
    with d y show ?thesis
      by (intro mjd_to_date_march_on [where B = 214]) (simp_all add: days_in_month_def)
  next
    case 7
    with d y show ?thesis
      by (intro mjd_to_date_march_on [where B = 244]) (simp_all add: days_in_month_def)
  next
    case 8
    with d y show ?thesis
      by (intro mjd_to_date_march_on [where B = 275]) (simp_all add: days_in_month_def)
  next
    case 9
    with d y show ?thesis
      by (intro mjd_to_date_march_on [where B = 306]) (simp_all add: days_in_month_def)
  next
    case 10
    with d y show ?thesis
      by (intro mjd_to_date_march_on [where B = 336]) (simp_all add: days_in_month_def)
  next
    case 11
    with d y show ?thesis
      by (intro mjd_to_date_march_on [where B = 367]) (simp_all add: days_in_month_def)
  next
    case 12
    with d y show ?thesis
      by (intro mjd_to_date_march_on [where B = 397]) (simp_all add: days_in_month_def)
  qed
qed


text \<open>
  Modelled from the spec: a byte of the time of day holds two decimal digits (BCD); a
  digit above 9 is invalid.
\<close>

definition DecodeBCD :: "uint8 \<Rightarrow> nat option" where
  "DecodeBCD b =
     (let hi = unat (drop_bit 4 b); lo = unat (b AND 0x0F)
      in if hi \<le> 9 \<and> lo \<le> 9 then Some (10 * hi + lo) else None)"

definition EncodeBCD :: "nat \<Rightarrow> uint8" where
  "EncodeBCD n = of_nat (16 * (n div 10) + n mod 10)"

lemma DecodeBCD_EncodeBCD:
  assumes "n < 100"
  shows "DecodeBCD (EncodeBCD n) = Some n"
proof -
  let ?k = "16 * (n div 10) + n mod 10"
  from assms have k: "?k < 256" by simp
  then have u: "unat (of_nat ?k :: uint8) = ?k"
    by (simp add: unat_of_nat del: of_nat_add of_nat_mult)
  have hi: "unat (drop_bit 4 (of_nat ?k :: uint8)) = n div 10"
    by (simp only: unat_drop_bit_eq u) (simp add: drop_bit_eq_div)
  have "(of_nat ?k :: uint8) AND 0x0F = take_bit 4 (of_nat ?k :: uint8)"
    by (simp add: take_bit_eq_mask mask_eq_exp_minus_1)
  then have lo: "unat ((of_nat ?k :: uint8) AND 0x0F) = n mod 10"
    by (simp only: unsigned_take_bit_eq u) (simp add: take_bit_eq_mod)
  from assms have "n div 10 \<le> 9" by simp
  then show ?thesis
    by (simp add: DecodeBCD_def EncodeBCD_def Let_def hi lo del: of_nat_add of_nat_mult)
qed

text \<open>
  Modelled from the spec: \<open>decode\<close> accepts 2, 4 or 5 bytes; bytes 0 and 1 are the day
  count, the bytes 2 to 4 that are present are the hours, minutes and seconds in BCD;
  it fails for another size or an invalid BCD byte. \<open>encode\<close> fails if the size is not
  2, 4 or 5, if the date is before 1900-03-01, or if the size is 2 and the time of day
  is not zero; it writes the day count on 2 bytes and the time of day in BCD, as many
  bytes as the size allows. \<open>None\<close> is the result \<open>false\<close> of the source's functions.
\<close>

definition DecodeMJD :: "uint8 list \<Rightarrow> Time option" where
  "DecodeMJD mjd =
     (if \<not> (length mjd = 2 \<or> length mjd = 4 \<or> length mjd = 5) then None
      else
        case mjd_to_date (256 * uint (mjd ! 0) + uint (mjd ! 1)) of (y, m, d) \<Rightarrow>
          (case (if 3 \<le> length mjd then DecodeBCD (mjd ! 2) else Some 0,
                 if 4 \<le> length mjd then DecodeBCD (mjd ! 3) else Some 0,
                 if 5 \<le> length mjd then DecodeBCD (mjd ! 4) else Some 0) of
             (Some hh, Some mm, Some ss) \<Rightarrow>
               Some \<lparr>year = y, month = m, day = d, hour = hh, minute = mm, second = ss\<rparr>
           | _ \<Rightarrow> None))"

definition EncodeMJD :: "Time \<Rightarrow> nat \<Rightarrow> uint8 list option" where
  "EncodeMJD time mjd_size =
     (if \<not> (mjd_size = 2 \<or> mjd_size = 4 \<or> mjd_size = 5) then None
      else if date_before (year time, month time, day time) (1900, 3, 1) then None
      else if mjd_size = 2 \<and> \<not> (hour time = 0 \<and> minute time = 0 \<and> second time = 0) then None
      else
        let days = date_to_mjd (year time) (month time) (day time)
        in Some (take mjd_size
                  [of_int (days div 256), of_int days,
                   EncodeBCD (hour time), EncodeBCD (minute time), EncodeBCD (second time)]))"

definition Time_ok :: "Time \<Rightarrow> bool" where
  "Time_ok t =
     (date_ok (year t) (month t) (day t) \<and> hour t < 24 \<and> minute t < 60 \<and> second t < 60)"

lemma div4_bounds: "4 * ((x :: int) div 4) \<le> x \<and> x < 4 * (x div 4) + 4"
  by presburger

lemma div10000_bounds: "10000 * ((x :: int) div 10000) \<le> x \<and> x < 10000 * (x div 10000) + 10000"
  by presburger

lemma date_to_mjd_nonneg:
  assumes "date_ok y m d" "\<not> date_before (y, m, d) (1900, 3, 1)"
  shows "0 \<le> date_to_mjd y m d"
proof -
  define l :: int where "l = (if m = 1 \<or> m = 2 then 1 else 0)"
  from assms have m: "1 \<le> m" "m \<le> 12" and d: "1 \<le> d"
    and y: "0 \<le> y - 1900 - l"
    by (auto simp: date_ok_def date_before_def l_def)
  have "0 \<le> ((y - 1900 - l) * 1461) div 4"
    using y by (intro pos_imp_zdiv_nonneg_iff [THEN iffD2]) simp_all
  moreover have "0 \<le> ((m + 1 + 12 * l) * 306001) div 10000"
    using m by (intro pos_imp_zdiv_nonneg_iff [THEN iffD2]) (simp_all add: l_def)
  ultimately show ?thesis
    unfolding date_to_mjd_int l_def [symmetric] using d by simp
qed

lemma date_to_mjd_16bit:
  assumes "date_ok y m d" "\<not> date_before (2038, 4, 22) (y, m, d)"
  shows "date_to_mjd y m d \<le> 65535"
proof -
  define l :: int where "l = (if m = 1 \<or> m = 2 then 1 else 0)"
  define A where "A = ((y - 1900 - l) * 1461) div 4"
  define B where "B = ((m + 1 + 12 * l) * 306001) div 10000"
  from assms(1) have m: "1 \<le> m" "m \<le> 12" and d: "1 \<le> d" "d \<le> 31"
    by (auto simp: date_ok_def days_in_month_def split: if_splits)
  have A: "4 * A \<le> (y - 1900 - l) * 1461"
    unfolding A_def using div4_bounds by blast
  have B: "10000 * B \<le> (m + 1 + 12 * l) * 306001"
    unfolding B_def using div10000_bounds by blast
  have mjd: "date_to_mjd y m d = 14956 + d + A + B"
    unfolding date_to_mjd_int A_def B_def l_def ..
  have "y \<le> 2037 \<or> (y = 2038 \<and> m \<le> 2) \<or> (y = 2038 \<and> m = 3) \<or>
      (y = 2038 \<and> m = 4 \<and> d \<le> 22)"
    using assms(2) m unfolding date_before_def prod.case by presburger
  then consider "y \<le> 2037" | "y = 2038" "m \<le> 2" | "y = 2038" "m = 3"
    | "y = 2038" "m = 4" "d \<le> 22"
    by blast
  then show ?thesis
  proof cases
    case 1
    have "l = 0 \<or> l = 1" by (simp add: l_def)
    with 1 m have "4 * A \<le> 200157" "10000 * B \<le> 4590015"
      using A B by (auto simp: l_def split: if_splits)
    with d show ?thesis unfolding mjd by linarith
  next
    case 2
    with m have l: "l = 1" by (auto simp: l_def)
    from A B 2 l have "4 * A \<le> 200157" "10000 * B \<le> 4590015" by simp_all
    with d show ?thesis unfolding mjd by linarith
  next
    case 3
    then have l: "l = 0" by (simp add: l_def)
    from A B 3 l have "4 * A \<le> 201618" "10000 * B \<le> 1224004" by simp_all
    with d show ?thesis unfolding mjd by linarith
  next
    case 4
    then have l: "l = 0" by (simp add: l_def)
    from A B 4 l have "4 * A \<le> 201618" "10000 * B \<le> 1530005" by simp_all
    with 4 show ?thesis unfolding mjd by linarith
  qed
qed

lemma day_bytes:
  assumes "0 \<le> days" "days \<le> 65535"
  shows "256 * uint (of_int (days div 256) :: uint8) + uint (of_int days :: uint8) = days"
proof -
  have "uint (of_int (days div 256) :: uint8) = (days div 256) mod 256"
    by (simp add: uint_word_of_int)
  moreover have "0 \<le> days div 256 \<and> days div 256 < 256"
    using assms by presburger
  then have "(days div 256) mod 256 = days div 256"
    by (intro mod_pos_pos_trivial) simp_all
  moreover have "uint (of_int days :: uint8) = days mod 256"
    by (simp add: uint_word_of_int)
  ultimately show ?thesis by simp
qed


lemma Time_eta:
  "\<lparr>year = year t, month = month t, day = day t, hour = hour t, minute = minute t,
    second = second t\<rparr> = (t :: Time)"
  by simp

text \<open>
  C6 (amended). For every UTC time (to the second) with a date from 1900-03-01 to
  2038-04-22, the last day whose count fits 16 bits, and every size 2, 4 or 5, with a zero
  time of day when the size is 2 and zero seconds when the size is 4, \<open>EncodeMJD\<close>
  succeeds with that many bytes and \<open>DecodeMJD\<close> of these bytes gives the time back.
\<close>

theorem DecodeMJD_EncodeMJD:
  assumes ok: "Time_ok t"
    and lo: "\<not> date_before (year t, month t, day t) (1900, 3, 1)"
    and hi: "\<not> date_before (2038, 4, 22) (year t, month t, day t)"
    and n: "n = 2 \<or> n = 4 \<or> n = 5"
    and n2: "n = 2 \<longrightarrow> hour t = 0 \<and> minute t = 0 \<and> second t = 0"
    and n4: "n = 4 \<longrightarrow> second t = 0"
  shows "\<exists>mjd. EncodeMJD t n = Some mjd \<and> length mjd = n \<and> DecodeMJD mjd = Some t"
proof -
  let ?days = "date_to_mjd (year t) (month t) (day t)"
  let ?all = "[of_int (?days div 256), of_int ?days,
               EncodeBCD (hour t), EncodeBCD (minute t), EncodeBCD (second t)] :: uint8 list"
  from ok have date: "date_ok (year t) (month t) (day t)"
    and tod: "hour t < 100" "minute t < 100" "second t < 100"
    by (simp_all add: Time_ok_def)
  have enc: "EncodeMJD t n = Some (take n ?all)"
    using lo n n2 by (auto simp: EncodeMJD_def Let_def)
  have len: "length (take n ?all) = n"
    using n by auto
  have days: "256 * uint (of_int (?days div 256) :: uint8) + uint (of_int ?days :: uint8) = ?days"
    by (rule day_bytes [OF date_to_mjd_nonneg [OF date lo] date_to_mjd_16bit [OF date hi]])
  have date_back: "mjd_to_date ?days = (year t, month t, day t)"
    by (rule mjd_to_date_date_to_mjd [OF date lo])
  have bcd0: "DecodeBCD (EncodeBCD 0) = Some 0"
    by (rule DecodeBCD_EncodeBCD) simp
  note bcd = DecodeBCD_EncodeBCD [OF tod(1)] DecodeBCD_EncodeBCD [OF tod(2)]
    DecodeBCD_EncodeBCD [OF tod(3)]
  have dec: "DecodeMJD (take n ?all) = Some t"
  proof -
    consider "n = 2" | "n = 4" | "n = 5" using n by blast
    then show ?thesis
    proof cases
      case 1
      with n2 have z: "hour t = 0" "minute t = 0" "second t = 0" by simp_all
      have "DecodeMJD (take 2 ?all) =
          Some \<lparr>year = year t, month = month t, day = day t, hour = 0, minute = 0, second = 0\<rparr>"
        by (simp add: DecodeMJD_def days date_back)
      also have "\<dots> = Some t" using Time_eta [of t] z by simp
      finally show ?thesis using 1 by simp
    next
      case 2
      with n4 have z: "second t = 0" by simp
      have "DecodeMJD (take 4 ?all) =
          Some \<lparr>year = year t, month = month t, day = day t, hour = hour t,
                 minute = minute t, second = 0\<rparr>"
        by (simp add: DecodeMJD_def days date_back bcd)
      also have "\<dots> = Some t" using Time_eta [of t] z by simp
      finally show ?thesis using 2 by simp
    next
      case 3
      have "DecodeMJD (take 5 ?all) =
          Some \<lparr>year = year t, month = month t, day = day t, hour = hour t,
                 minute = minute t, second = second t\<rparr>"
        by (simp add: DecodeMJD_def days date_back bcd)
      then show ?thesis using 3 by simp
    qed
  qed
  from enc len dec show ?thesis by blast
qed

definition example_time :: Time where
  "example_time = \<lparr>year = 1993, month = 10, day = 13, hour = 12, minute = 45, second = 0\<rparr>"

lemma date_to_mjd_example: "date_to_mjd 1993 10 13 = 49273"
  unfolding date_to_mjd_int by simp

lemma mjd_to_date_example: "mjd_to_date 49273 = (1993, 10, 13)"
  unfolding mjd_to_date_def mjd_day_def mjd_month'_int mjd_year'_int floor_365 floor_306 Let_def
  by simp

lemma EncodeBCD_examples: "EncodeBCD 12 = 0x12" "EncodeBCD 45 = 0x45" "EncodeBCD 0 = 0x00"
  "EncodeBCD 30 = 0x30"
  by (simp_all add: EncodeBCD_def)

lemma DecodeBCD_examples: "DecodeBCD 0x12 = Some 12" "DecodeBCD 0x45 = Some 45"
  "DecodeBCD 0x00 = Some 0"
  by (simp_all add: DecodeBCD_def Let_def)

lemma EncodeMJD_example:
  "EncodeMJD example_time 5 = Some [0xC0, 0x79, 0x12, 0x45, 0x00]"
  by (simp add: EncodeMJD_def example_time_def date_before_def date_to_mjd_example Let_def
      EncodeBCD_examples)

theorem DecodeMJD_EncodeMJD_witness:
  "Time_ok example_time \<and>
   EncodeMJD example_time 5 = Some [0xC0, 0x79, 0x12, 0x45, 0x00] \<and>
   DecodeMJD [0xC0, 0x79, 0x12, 0x45, 0x00] = Some example_time"
proof -
  have ok: "Time_ok example_time"
    by (simp add: Time_ok_def example_time_def date_ok_def days_in_month_def)
  have lo: "\<not> date_before (year example_time, month example_time, day example_time) (1900, 3, 1)"
    and hi: "\<not> date_before (2038, 4, 22) (year example_time, month example_time, day example_time)"
    by (simp_all add: date_before_def example_time_def)
  from DecodeMJD_EncodeMJD [OF ok lo hi, of 5]
  obtain mjd where "EncodeMJD example_time 5 = Some mjd" "DecodeMJD mjd = Some example_time"
    by auto
  with EncodeMJD_example ok show ?thesis by simp
qed

text \<open>
  C6 as stated fails: 1993-10-13 12:45:30 is accepted with size 4, as \<open>C0 79 12 45\<close>, and
  these 4 bytes decode to 12:45:00, since 4 bytes have no seconds.
\<close>

theorem mjd_4_bytes_counterexample:
  "Time_ok (example_time\<lparr>second := 30\<rparr>) \<and>
   \<not> date_before (1993, 10, 13) (1900, 3, 1) \<and>
   EncodeMJD (example_time\<lparr>second := 30\<rparr>) 4 = Some [0xC0, 0x79, 0x12, 0x45] \<and>
   DecodeMJD [0xC0, 0x79, 0x12, 0x45] = Some example_time \<and>
   example_time \<noteq> example_time\<lparr>second := 30\<rparr>"
proof -
  have 1: "Time_ok (example_time\<lparr>second := 30\<rparr>)"
    by (simp add: Time_ok_def example_time_def date_ok_def days_in_month_def)
  have 2: "\<not> date_before (1993, 10, 13) (1900, 3, 1)"
    by (simp add: date_before_def)
  have 3: "EncodeMJD (example_time\<lparr>second := 30\<rparr>) 4 = Some [0xC0, 0x79, 0x12, 0x45]"
    by (simp add: EncodeMJD_def example_time_def date_before_def date_to_mjd_example Let_def
        EncodeBCD_examples)
  have 4: "DecodeMJD [0xC0, 0x79, 0x12, 0x45] = Some example_time"
    by (simp add: DecodeMJD_def mjd_to_date_example DecodeBCD_examples example_time_def)
  have 5: "example_time \<noteq> example_time\<lparr>second := 30\<rparr>"
    by (simp add: example_time_def)
  from 1 2 3 4 5 show ?thesis by blast
qed

end
